theory Spec2Isabelle
  imports Complex_Main "HOL-Library.Char_ord" "HOL-Library.Sublist"
begin

section \<open>Characters and the regular expressions of \<open>mcq_exam.py\<close>\<close>

text \<open>
  Python strings are modelled as \<^typ>\<open>string\<close>: lists of characters with code points
  below 256. On these, \<open>\s\<close> (and \<open>str.strip\<close>) is the set below, \<open>\d\<close> is \<open>0-9\<close>, and
  case folding of the ASCII letters used by the patterns is the ASCII one.
\<close>

definition is_space :: "char \<Rightarrow> bool" where
  "is_space c = (let n = (of_char c :: nat) in
     (9 \<le> n \<and> n \<le> 13) \<or> (28 \<le> n \<and> n \<le> 32) \<or> n = 133 \<or> n = 160)"

definition is_digit :: "char \<Rightarrow> bool" where
  "is_digit c = (let n = (of_char c :: nat) in 48 \<le> n \<and> n \<le> 57)"

definition is_upper :: "char \<Rightarrow> bool" where
  "is_upper c = (let n = (of_char c :: nat) in 65 \<le> n \<and> n \<le> 90)"

definition is_lower :: "char \<Rightarrow> bool" where
  "is_lower c = (let n = (of_char c :: nat) in 97 \<le> n \<and> n \<le> 122)"

definition is_alpha :: "char \<Rightarrow> bool" where
  "is_alpha c = (is_upper c \<or> is_lower c)"

definition upper_char :: "char \<Rightarrow> char" where
  "upper_char c = (if is_lower c then char_of (of_char c - (32 :: nat)) else c)"

definition lower_char :: "char \<Rightarrow> char" where
  "lower_char c = (if is_upper c then char_of (of_char c + (32 :: nat)) else c)"

text \<open>\<open>str.strip()\<close>: leading and trailing whitespace removed.\<close>

definition strip :: "string \<Rightarrow> string" where
  "strip s = rev (dropWhile is_space (rev (dropWhile is_space s)))"

text \<open>\<open>str.splitlines()\<close>: the line boundaries below 256 are
  \<open>\n\<close>, \<open>\r\<close>, \<open>\r\n\<close>, \<open>\v\<close>, \<open>\f\<close>, \<open>\x1c\<close>, \<open>\x1d\<close>, \<open>\x1e\<close> and \<open>\x85\<close>;
  a final line break does not open another line. The first argument is the current
  line, reversed.\<close>

definition is_linebreak :: "char \<Rightarrow> bool" where
  "is_linebreak c = (let n = (of_char c :: nat) in
     (10 \<le> n \<and> n \<le> 13) \<or> (28 \<le> n \<and> n \<le> 30) \<or> n = 133)"

fun split_acc :: "string \<Rightarrow> string \<Rightarrow> string list" where
  "split_acc cur [] = (if cur = [] then [] else [rev cur])"
| "split_acc cur (c # cs) =
     (if c = CHR 0x0D then
        (case cs of
           d # ds \<Rightarrow> if d = CHR 0x0A then rev cur # split_acc [] ds
                     else rev cur # split_acc [] cs
         | [] \<Rightarrow> rev cur # split_acc [] cs)
      else if is_linebreak c then rev cur # split_acc [] cs
      else split_acc (c # cur) cs)"

definition splitlines :: "string \<Rightarrow> string list" where
  "splitlines s = split_acc [] s"

text \<open>Matching a literal at the start of a string; the rest of the string is returned.
  \<open>ci_prefix\<close> is the match under \<open>re.IGNORECASE\<close>, its pattern given in lower case.\<close>

fun cs_prefix :: "string \<Rightarrow> string \<Rightarrow> string option" where
  "cs_prefix [] s = Some s"
| "cs_prefix (p # ps) [] = None"
| "cs_prefix (p # ps) (c # cs) = (if c = p then cs_prefix ps cs else None)"

fun ci_prefix :: "string \<Rightarrow> string \<Rightarrow> string option" where
  "ci_prefix [] s = Some s"
| "ci_prefix (p # ps) [] = None"
| "ci_prefix (p # ps) (c # cs) = (if lower_char c = p then ci_prefix ps cs else None)"

text \<open>The first place at or after the start of \<open>s\<close> where the literal matches (ignoring
  case); the text after that match.\<close>

fun skip_to :: "string \<Rightarrow> string \<Rightarrow> string option" where
  "skip_to pat [] = ci_prefix pat []"
| "skip_to pat (c # cs) =
     (case ci_prefix pat (c # cs) of Some r \<Rightarrow> Some r | None \<Rightarrow> skip_to pat cs)"

lemma cs_prefix_length: "cs_prefix p s = Some r \<Longrightarrow> length r + length p = length s"
  by (induction p s rule: cs_prefix.induct) (auto split: if_splits)

lemma ci_prefix_length: "ci_prefix p s = Some r \<Longrightarrow> length r + length p = length s"
  by (induction p s rule: ci_prefix.induct) (auto split: if_splits)

lemma skip_to_length: "skip_to p s = Some r \<Longrightarrow> length r + length p \<le> length s"
proof (induction s)
  case Nil
  then show ?case by (auto dest: ci_prefix_length)
next
  case (Cons c cs)
  then show ?case by (auto split: option.splits dest: ci_prefix_length)
qed

section \<open>Text sanitizer\<close>

text \<open>
  \<open>re.sub\<close> with an empty replacement scans from the left, removes the match found at the
  current position and goes on after it, and keeps the character when there is no match.

  \<open>remove_blocks start stop\<close> is the substitution for
  \<open>DETAILS_ENTITY_BLOCK_RE = &lt;details[\s\S]*?&lt;/details&gt;\<close> and for
  \<open>DETAILS_HTML_BLOCK_RE = <details[\s\S]*?</details>\<close> (both \<open>re.IGNORECASE\<close>): the lazy
  \<open>[\s\S]*?\<close> stops at the first stop literal after the start one. The test on the
  lengths makes the recursion total for arbitrary literals; it is true whenever the
  start literal is not empty (\<open>remove_blocks_guard\<close> below).
\<close>

function remove_blocks :: "string \<Rightarrow> string \<Rightarrow> string \<Rightarrow> string" where
  "remove_blocks start stop [] = []"
| "remove_blocks start stop (c # cs) =
     (case ci_prefix start (c # cs) of
        None \<Rightarrow> c # remove_blocks start stop cs
      | Some r \<Rightarrow>
          (case skip_to stop r of
             None \<Rightarrow> c # remove_blocks start stop cs
           | Some r' \<Rightarrow> if length r' < length (c # cs) then remove_blocks start stop r'
                        else c # remove_blocks start stop cs))"
  by pat_completeness auto
termination
  by (relation "measure (\<lambda>(start, stop, s). length s)") auto

lemma remove_blocks_guard:
  "start \<noteq> [] \<Longrightarrow> ci_prefix start s = Some r \<Longrightarrow> skip_to stop r = Some r'
     \<Longrightarrow> length r' < length s"
  using ci_prefix_length [of start s r] skip_to_length [of stop r r']
  by (cases start) simp_all

text \<open>
  \<open>ANGLE_ENTITY_RE = &lt;[^&]*?&gt;\<close>: after \<open>&lt;\<close>, the lazy class can only end where
  the next \<open>&\<close> is, and the match exists when \<open>&gt;\<close> starts there.
\<close>

function remove_entities :: "string \<Rightarrow> string" where
  "remove_entities [] = []"
| "remove_entities (c # cs) =
     (case cs_prefix ''&lt;'' (c # cs) of
        None \<Rightarrow> c # remove_entities cs
      | Some r \<Rightarrow>
          (case cs_prefix ''&gt;'' (dropWhile (\<lambda>x. x \<noteq> CHR ''&'') r) of
             None \<Rightarrow> c # remove_entities cs
           | Some r' \<Rightarrow> remove_entities r'))"
  by pat_completeness auto
termination
proof (relation "measure length")
  show "wf (measure length)" by simp
next
  fix c :: char and cs :: string
  show "(cs, c # cs) \<in> measure length" by simp
next
  fix c :: char and cs :: string
  show "(cs, c # cs) \<in> measure length" by simp
next
  fix c :: char and cs r r' :: string
  assume a: "cs_prefix ''&lt;'' (c # cs) = Some r"
    and b: "cs_prefix ''&gt;'' (dropWhile (\<lambda>x. x \<noteq> CHR ''&'') r) = Some r'"
  have "length r + length ''&lt;'' = length (c # cs)"
    by (rule cs_prefix_length [OF a])
  moreover have "length r' + length ''&gt;'' = length (dropWhile (\<lambda>x. x \<noteq> CHR ''&'') r)"
    by (rule cs_prefix_length [OF b])
  moreover have "length (dropWhile (\<lambda>x. x \<noteq> CHR ''&'') r) \<le> length r"
    by (rule length_dropWhile_le)
  ultimately show "(r', c # cs) \<in> measure length" by simp
qed

text \<open>
  \<open>ANY_HTML_TAG_RE = <[^>]+>\<close>: after \<open><\<close>, the greedy class takes every character up
  to the next \<open>>\<close>; the match exists when it took at least one and a \<open>>\<close> follows.
\<close>

function remove_tags :: "string \<Rightarrow> string" where
  "remove_tags [] = []"
| "remove_tags (c # cs) =
     (if c = CHR ''<'' then
        (case dropWhile (\<lambda>x. x \<noteq> CHR ''>'') cs of
           [] \<Rightarrow> c # remove_tags cs
         | d # r \<Rightarrow> if takeWhile (\<lambda>x. x \<noteq> CHR ''>'') cs = [] then c # remove_tags cs
                    else remove_tags r)
      else c # remove_tags cs)"
  by pat_completeness auto
termination
proof (relation "measure length")
  show "wf (measure length)" by simp
next
  fix c :: char and cs :: string
  show "(cs, c # cs) \<in> measure length" by simp
next
  fix c :: char and cs :: string
  show "(cs, c # cs) \<in> measure length" by simp
next
  fix c :: char and cs :: string
  show "(cs, c # cs) \<in> measure length" by simp
next
  fix c d :: char and cs r :: string
  assume "dropWhile (\<lambda>x. x \<noteq> CHR ''>'') cs = d # r"
  then have "length (d # r) \<le> length cs"
    using length_dropWhile_le [of "\<lambda>x. x \<noteq> CHR ''>''" cs] by simp
  then show "(r, c # cs) \<in> measure length" by simp
qed

text \<open>\<open>re.sub(r"\s+", " ", text)\<close>: every maximal run of whitespace becomes one space.\<close>

function collapse_ws :: "string \<Rightarrow> string" where
  "collapse_ws [] = []"
| "collapse_ws (c # cs) =
     (if is_space c then CHR '' '' # collapse_ws (dropWhile is_space cs)
      else c # collapse_ws cs)"
  by pat_completeness auto
termination
  by (relation "measure length") (auto simp: less_Suc_eq_le length_dropWhile_le)

definition clean_question_text :: "string \<Rightarrow> string" where
  "clean_question_text text0 =
     (if text0 = [] then text0
      else
        let text1 = remove_blocks ''&lt;details'' ''&lt;/details&gt;'' text0;
            text2 = remove_entities text1;
            text3 = remove_blocks ''<details'' ''</details>'' text2;
            text4 = remove_tags text3
        in strip (collapse_ws text4))"

text \<open>The shape of a text whose whitespace is normalised inside: every whitespace
  character is a space, and no two of them are adjacent.\<close>

fun single_spaced :: "string \<Rightarrow> bool" where
  "single_spaced [] = True"
| "single_spaced [c] = (is_space c \<longrightarrow> c = CHR '' '')"
| "single_spaced (c # d # s) =
     ((is_space c \<longrightarrow> c = CHR '' '' \<and> \<not> is_space d) \<and> single_spaced (d # s))"

section \<open>Data model\<close>

text \<open>
  Class \<open>Question\<close>. A letter is a one-character Python string everywhere in the program
  (a group \<open>[A-Z]\<close>, an element of \<open>list(str)\<close> or of \<open>re.findall(r"[A-Za-z]", raw)\<close>,
  upper-cased); it is modelled as a \<^typ>\<open>char\<close>. \<open>choose_n\<close> is \<open>int | None\<close>. The field
  \<open>text\<close> is named \<open>q_text\<close> here.
\<close>

record question =
  number :: nat
  q_text :: string
  choices :: "(char \<times> string) list"
  correct_letters :: "char list"
  choose_n :: "nat option"

definition new_question :: "nat \<Rightarrow> string \<Rightarrow> question" where
  "new_question n t =
     \<lparr>number = n, q_text = strip t, choices = [], correct_letters = [], choose_n = None\<rparr>"

definition add_choice :: "question \<Rightarrow> char \<Rightarrow> string \<Rightarrow> question" where
  "add_choice q letter t = q\<lparr>choices := choices q @ [(upper_char letter, strip t)]\<rparr>"

definition set_correct :: "question \<Rightarrow> char list \<Rightarrow> question" where
  "set_correct q letters = q\<lparr>correct_letters := map upper_char letters\<rparr>"

definition infer_choose_n :: "question \<Rightarrow> question" where
  "infer_choose_n q =
     (if choose_n q = None \<and> correct_letters q \<noteq> []
      then q\<lparr>choose_n := Some (length (correct_letters q))\<rparr> else q)"

section \<open>Parser\<close>

text \<open>\<open>int(qmatch.group(1))\<close> on a string of decimal digits.\<close>

definition digit_val :: "char \<Rightarrow> nat" where
  "digit_val c = of_char c - 48"

definition int_of_digits :: "string \<Rightarrow> nat" where
  "int_of_digits ds = foldl (\<lambda>a d. 10 * a + digit_val d) 0 ds"

text \<open>The rest of a line for \<open>(.*)\<close>: the dot stops at a newline.\<close>

definition dot_star :: "string \<Rightarrow> string" where
  "dot_star s = takeWhile (\<lambda>c. c \<noteq> CHR 0x0A) s"

text \<open>\<open>QUESTION_RE.match(line)\<close> with \<open>QUESTION_RE = ^\s*(\d+)\.\s+(.*)\<close>: groups 1 and 2.\<close>

definition question_match :: "string \<Rightarrow> (string \<times> string) option" where
  "question_match line =
     (let s1 = dropWhile is_space line;
          ds = takeWhile is_digit s1
      in if ds = [] then None
         else (case dropWhile is_digit s1 of
                 c # s2 \<Rightarrow>
                   if c = CHR ''.'' \<and> takeWhile is_space s2 \<noteq> []
                   then Some (ds, dot_star (dropWhile is_space s2))
                   else None
               | [] \<Rightarrow> None))"

text \<open>\<open>CHOICE_RE.match(line)\<close> with \<open>CHOICE_RE = ^\s*-\s*([A-Z])\.\s*(.*)\<close>: groups 1 and 2.\<close>

definition choice_match :: "string \<Rightarrow> (char \<times> string) option" where
  "choice_match line =
     (case dropWhile is_space line of
        c # s1 \<Rightarrow>
          if c = CHR ''-'' then
            (case dropWhile is_space s1 of
               l # d # s2 \<Rightarrow>
                 if is_upper l \<and> d = CHR ''.''
                 then Some (l, dot_star (dropWhile is_space s2))
                 else None
             | _ \<Rightarrow> None)
          else None
      | [] \<Rightarrow> None)"

text \<open>
  \<open>CORRECT_RE.search(line)\<close> with \<open>CORRECT_RE = Correct\s+Answer:\s*([A-Z]+)\<close> under
  \<open>re.IGNORECASE\<close>, where the class takes letters of both cases: group 1 of the leftmost match.
\<close>

definition correct_at :: "string \<Rightarrow> string option" where
  "correct_at s =
     (case ci_prefix ''correct'' s of
        None \<Rightarrow> None
      | Some r \<Rightarrow>
          if takeWhile is_space r = [] then None
          else (case ci_prefix ''answer:'' (dropWhile is_space r) of
                  None \<Rightarrow> None
                | Some r2 \<Rightarrow>
                    (let ls = takeWhile is_alpha (dropWhile is_space r2)
                     in if ls = [] then None else Some ls)))"

fun correct_search :: "string \<Rightarrow> string option" where
  "correct_search [] = correct_at []"
| "correct_search (c # cs) =
     (case correct_at (c # cs) of Some ls \<Rightarrow> Some ls | None \<Rightarrow> correct_search cs)"

text \<open>
  \<open>CHOOSE_RE.search(qtext)\<close> with
  \<open>CHOOSE_RE = \(\s*Choose\s+(one|two|three|four|five)\.?\s*\)\<close> under \<open>re.IGNORECASE\<close>:
  group 1 of the leftmost match, in lower case (\<open>cm.group(1).lower()\<close>).
\<close>

definition choose_tail :: "string \<Rightarrow> bool" where
  "choose_tail r =
     (let r1 = (case r of c # cs \<Rightarrow> if c = CHR ''.'' then cs else r | [] \<Rightarrow> r)
      in case dropWhile is_space r1 of c # cs \<Rightarrow> c = CHR '')'' | [] \<Rightarrow> False)"

fun choose_word :: "string list \<Rightarrow> string \<Rightarrow> string option" where
  "choose_word [] r = None"
| "choose_word (w # ws) r =
     (case ci_prefix w r of
        Some r' \<Rightarrow> if choose_tail r' then Some w else choose_word ws r
      | None \<Rightarrow> choose_word ws r)"

definition choose_at :: "string \<Rightarrow> string option" where
  "choose_at s =
     (case s of
        c # r \<Rightarrow>
          if c = CHR ''('' then
            (case ci_prefix ''choose'' (dropWhile is_space r) of
               None \<Rightarrow> None
             | Some r1 \<Rightarrow>
                 if takeWhile is_space r1 = [] then None
                 else choose_word [''one'', ''two'', ''three'', ''four'', ''five'']
                        (dropWhile is_space r1))
          else None
      | [] \<Rightarrow> None)"

fun choose_search :: "string \<Rightarrow> string option" where
  "choose_search [] = choose_at []"
| "choose_search (c # cs) =
     (case choose_at (c # cs) of Some w \<Rightarrow> Some w | None \<Rightarrow> choose_search cs)"

definition WORD_TO_INT :: "string \<rightharpoonup> nat" where
  "WORD_TO_INT = map_of [(''one'', 1), (''two'', 2), (''three'', 3), (''four'', 4), (''five'', 5)]"

text \<open>The work done when a question is closed: \<open>infer_choose_n\<close>, then the text is cleaned.\<close>

definition finalize :: "question \<Rightarrow> question" where
  "finalize q = (let q1 = infer_choose_n q in q1\<lparr>q_text := clean_question_text (q_text q1)\<rparr>)"

text \<open>
  One iteration of the loop over the lines of \<open>parse_markdown_exam_text\<close>; the state is
  the list \<open>questions\<close> and the cursor \<open>current_q\<close>.
\<close>

definition parse_line ::
  "question list \<times> question option \<Rightarrow> string \<Rightarrow> question list \<times> question option" where
  "parse_line st line =
     (case st of (questions, current_q) \<Rightarrow>
        (case question_match line of
           Some (ds, qtext) \<Rightarrow>
             (let questions' = (case current_q of
                                  Some q \<Rightarrow> questions @ [finalize q]
                                | None \<Rightarrow> questions);
                  q0 = new_question (int_of_digits ds) qtext;
                  q1 = (case choose_search qtext of
                          Some w \<Rightarrow> q0\<lparr>choose_n := WORD_TO_INT w\<rparr>
                        | None \<Rightarrow> q0)
              in (questions', Some q1))
         | None \<Rightarrow>
             (case current_q of
                None \<Rightarrow> (questions, None)
              | Some q \<Rightarrow>
                  (case choice_match line of
                     Some (letter, text_opt) \<Rightarrow> (questions, Some (add_choice q letter text_opt))
                   | None \<Rightarrow>
                       (case correct_search line of
                          Some letters \<Rightarrow>
                            (questions, Some (infer_choose_n (set_correct q letters)))
                        | None \<Rightarrow>
                            if line \<noteq> [] \<and> cs_prefix ''-'' line = None
                               \<and> cs_prefix ''Answer'' (strip line) = None
                            then (questions, Some (q\<lparr>q_text := q_text q @ '' '' @ strip line\<rparr>))
                            else (questions, Some q))))))"

definition parse_finish :: "question list \<times> question option \<Rightarrow> question list" where
  "parse_finish st =
     (case st of (questions, current_q) \<Rightarrow>
        (let questions' = (case current_q of
                             Some q \<Rightarrow> if choices q \<noteq> [] then questions @ [finalize q]
                                       else questions
                           | None \<Rightarrow> questions)
         in filter (\<lambda>q. choices q \<noteq> []) questions'))"

definition parse_markdown_exam_text :: "string \<Rightarrow> question list" where
  "parse_markdown_exam_text doc = parse_finish (foldl parse_line ([], None) (splitlines doc))"

text \<open>
  For the order of the choices: what the parser has recorded so far (the choices of the
  questions closed and of the cursor), what a line would record as a choice (letter
  upper-cased, text stripped, as \<open>add_choice\<close> stores them), and the choice lines of a
  document in document order.
\<close>

definition all_choices :: "question list \<times> question option \<Rightarrow> (char \<times> string) list" where
  "all_choices st =
     (case st of (questions, current_q) \<Rightarrow>
        concat (map choices questions) @ (case current_q of None \<Rightarrow> [] | Some q \<Rightarrow> choices q))"

definition recorded_choice :: "string \<Rightarrow> (char \<times> string) list" where
  "recorded_choice line =
     (case choice_match line of Some (l, t) \<Rightarrow> [(upper_char l, strip t)] | None \<Rightarrow> [])"

definition choice_lines :: "string \<Rightarrow> (char \<times> string) list" where
  "choice_lines doc = concat (map recorded_choice (splitlines doc))"

text \<open>Documents used as examples, one line per list element: a question without a
  \<open>Correct Answer\<close> line, a question with the letter \<open>A\<close> on two choice lines, and the
  canonical document of the specification with the two questions it describes.\<close>

definition unlines :: "string list \<Rightarrow> string" where
  "unlines ls = concat (map (\<lambda>l. l @ [CHR 0x0A]) ls)"

definition no_answer_doc :: string where
  "no_answer_doc = unlines [''1. What is S3?'', ''- A. Storage'', ''- B. Compute'']"

definition repeated_letter_doc :: string where
  "repeated_letter_doc = unlines [''1. What is S3?'', ''- A. Storage'', ''- A. Compute'',
     ''Correct Answer: A'']"

definition canonical_q1 :: question where
  "canonical_q1 =
     \<lparr>number = 1, q_text = ''What is S3? (Choose one.)'',
      choices = [(CHR ''A'', ''Storage''), (CHR ''B'', ''Compute'')],
      correct_letters = [CHR ''A''], choose_n = Some 1\<rparr>"

definition canonical_q2 :: question where
  "canonical_q2 =
     \<lparr>number = 2, q_text = ''Pick two. (Choose two.)'',
      choices = [(CHR ''A'', ''X''), (CHR ''B'', ''Y''), (CHR ''C'', ''Z'')],
      correct_letters = [CHR ''A'', CHR ''C''], choose_n = Some 2\<rparr>"

definition canonical_doc :: string where
  "canonical_doc = unlines
     [''1. What is S3? (Choose one.)'',
      ''- A. Storage'',
      ''- B. Compute'',
      ''Correct Answer: A'',
      ''2. Pick two. (Choose two.)'',
      ''- A. X'',
      ''- B. Y'',
      ''- C. Z'',
      ''Correct Answer: AC'']"

section \<open>Runner\<close>

text \<open>
  What \<open>run_quiz\<close> prints, one constructor for each \<open>print\<close> call with the values its
  f-string interpolates; \<open>Prompt\<close> is the prompt written by \<open>input(prompt)\<close>. \<open>Passed\<close>
  carries \<open>final_score\<close> (the message shows \<open>final_score*100\<close>).
\<close>

datatype event =
    QuestionHeader nat nat
  | QuestionText string
  | ChoiceLine char string
  | Prompt
  | InputClosed
  | NeedLetter
  | InvalidOptions "char list"
  | SelectExactly nat
  | CorrectMsg
  | IncorrectMsg
  | CorrectAnswer "(char \<times> string) list"
  | Score nat nat
  | FinalScore nat nat
  | Passed rat
  | NotPassed

datatype error = IndexError | ZeroDivisionError

datatype answer = Answered bool | EndOfInput | Failed error

datatype outcome = Completed | Aborted | Raised error

text \<open>
  The random generator is outside the repository. Its state is the sequence of raw draws
  still to come; \<open>randbelow n\<close> reduces the next draw below \<open>n\<close>. \<open>random.shuffle\<close> is
  the library's loop \<open>for i in reversed(range(1, len(x))): j = randbelow(i + 1);
  x[i], x[j] = x[j], x[i]\<close>.
\<close>

type_synonym rng = "nat list"

record random_source =
  ambient :: rng
  seeded :: "int \<Rightarrow> rng"

definition randbelow :: "nat \<Rightarrow> rng \<Rightarrow> nat \<times> rng" where
  "randbelow n g = (case g of [] \<Rightarrow> (0, []) | r # g' \<Rightarrow> (r mod n, g'))"

fun shuffle_loop :: "nat \<Rightarrow> 'a list \<Rightarrow> rng \<Rightarrow> 'a list \<times> rng" where
  "shuffle_loop 0 xs g = (xs, g)"
| "shuffle_loop (Suc i) xs g =
     (case randbelow (Suc i + 1) g of
        (j, g') \<Rightarrow> shuffle_loop i (xs[Suc i := xs ! j, j := xs ! Suc i]) g')"

definition shuffle :: "'a list \<Rightarrow> rng \<Rightarrow> 'a list \<times> rng" where
  "shuffle xs g = shuffle_loop (length xs - 1) xs g"

text \<open>The slice \<open>xs[:l]\<close>: a negative bound counts from the end.\<close>

definition slice_to :: "'a list \<Rightarrow> int \<Rightarrow> 'a list" where
  "slice_to xs l = (if 0 \<le> l then take (nat l) xs else take (nat (int (length xs) + l)) xs)"

text \<open>
  \<open>correct/total\<close> is true division of two integers: \<open>ZeroDivisionError\<close> for a zero
  divisor, and otherwise the double nearest to the quotient, ties to the even mantissa.
  A positive double is \<open>m / 2^k\<close> or \<open>m * 2^j\<close> with \<open>2^52 \<le> m \<le> 2^53\<close>; the
  exponent range of doubles is not modelled (it is not reached by quotients between
  \<open>2^-1022\<close> and \<open>2^1023\<close>). \<open>threshold\<close> is the double that the literal \<open>0.7\<close> denotes.
\<close>

definition round_half_even :: "rat \<Rightarrow> int" where
  "round_half_even x =
     (let f = \<lfloor>x\<rfloor>; r = x - of_int f
      in if r < 1 / 2 then f else if 1 / 2 < r then f + 1 else if even f then f else f + 1)"

function scale_up :: "int \<Rightarrow> int \<Rightarrow> nat \<Rightarrow> nat" where
  "scale_up c t k = (if 0 < c \<and> c * 2 ^ k < t * 2 ^ 52 then scale_up c t (Suc k) else k)"
  by pat_completeness auto
termination
proof (relation "measure (\<lambda>(c, t, k). nat (t * 2 ^ 52 - c * 2 ^ k))")
  fix c t :: int and k :: nat
  assume a: "0 < c \<and> c * 2 ^ k < t * 2 ^ 52"
  define y where "y = c * 2 ^ k"
  from a have "0 < y" and "y < t * 2 ^ 52" by (simp_all add: y_def)
  then have "nat (t * 2 ^ 52 - 2 * y) < nat (t * 2 ^ 52 - y)" by linarith
  moreover have "c * 2 ^ Suc k = 2 * y" by (simp add: y_def)
  ultimately have "nat (t * 2 ^ 52 - c * 2 ^ Suc k) < nat (t * 2 ^ 52 - c * 2 ^ k)"
    by (simp only: y_def)
  then show "((c, t, Suc k), (c, t, k)) \<in> measure (\<lambda>(c, t, k). nat (t * 2 ^ 52 - c * 2 ^ k))"
    by (simp only: in_measure split_conv)
qed simp

function scale_down :: "int \<Rightarrow> int \<Rightarrow> nat \<Rightarrow> nat" where
  "scale_down c t j = (if 0 < t \<and> t * 2 ^ 53 * 2 ^ j \<le> c then scale_down c t (Suc j) else j)"
  by pat_completeness auto
termination
proof (relation "measure (\<lambda>(c, t, j). nat (c + 1 - t * 2 ^ 53 * 2 ^ j))")
  fix c t :: int and j :: nat
  assume a: "0 < t \<and> t * 2 ^ 53 * 2 ^ j \<le> c"
  define y where "y = t * 2 ^ 53 * 2 ^ j"
  from a have "0 < y" and "y \<le> c" by (simp_all add: y_def)
  then have "nat (c + 1 - 2 * y) < nat (c + 1 - y)" by linarith
  moreover have "t * 2 ^ 53 * 2 ^ Suc j = 2 * y" by (simp add: y_def)
  ultimately have "nat (c + 1 - t * 2 ^ 53 * 2 ^ Suc j) < nat (c + 1 - t * 2 ^ 53 * 2 ^ j)"
    by (simp only: y_def)
  then show "((c, t, Suc j), (c, t, j)) \<in> measure (\<lambda>(c, t, j). nat (c + 1 - t * 2 ^ 53 * 2 ^ j))"
    by (simp only: in_measure split_conv)
qed simp

declare scale_up.simps [simp del] scale_down.simps [simp del]

text \<open>The double nearest to \<open>c / t\<close>, for \<open>0 \<le> c\<close> and \<open>0 < t\<close>.\<close>

definition nearest_double :: "int \<Rightarrow> int \<Rightarrow> rat" where
  "nearest_double c t =
     (if c = 0 then 0
      else if t * 2 ^ 53 \<le> c then
        (let j = scale_down c t 0
         in of_int (round_half_even (of_int c / of_int (t * 2 ^ j))) * 2 ^ j)
      else
        (let k = scale_up c t 0
         in of_int (round_half_even (of_int (c * 2 ^ k) / of_int t)) / 2 ^ k))"

definition py_truediv :: "nat \<Rightarrow> nat \<Rightarrow> error + rat" where
  "py_truediv c t =
     (if t = 0 then Inl ZeroDivisionError else Inr (nearest_double (int c) (int t)))"

definition threshold :: rat where
  "threshold = 6305039478318694 / 2 ^ 53"

text \<open>The local variables of \<open>run_quiz\<close>, what it has printed, and the generator.\<close>

record session =
  correct :: nat
  running_total :: nat
  out :: "event list"
  rng :: rng

definition emit :: "event list \<Rightarrow> session \<Rightarrow> session" where
  "emit es w = w\<lparr>out := out w @ es\<rparr>"

text \<open>\<open>multi = (q.choose_n and q.choose_n > 1) or len(q.correct_letters) > 1\<close> and
  \<open>expected_n = q.choose_n or len(q.correct_letters)\<close>; \<open>None\<close> and \<open>0\<close> are false.\<close>

definition is_multi :: "question \<Rightarrow> bool" where
  "is_multi q =
     ((case choose_n q of Some n \<Rightarrow> n \<noteq> 0 \<and> 1 < n | None \<Rightarrow> False)
      \<or> 1 < length (correct_letters q))"

definition expected_n :: "question \<Rightarrow> nat" where
  "expected_n q =
     (case choose_n q of
        Some n \<Rightarrow> if n \<noteq> 0 then n else length (correct_letters q)
      | None \<Rightarrow> length (correct_letters q))"

text \<open>\<open>[ch.upper() for ch in re.findall(r"[A-Za-z]", raw)]\<close> for \<open>raw = input(prompt).strip()\<close>.\<close>

definition letters_of :: "string \<Rightarrow> char list" where
  "letters_of line = map upper_char (filter is_alpha (strip line))"

text \<open>
  The validation loop (\<open>while True\<close>). The lines still to be read from standard input are
  an argument; \<open>input\<close> raises \<open>EOFError\<close> when none is left. Each iteration reads one
  line; \<open>w\<close> is the session when the loop is entered.
\<close>

fun read_answer ::
  "question \<Rightarrow> (char \<times> string) list \<Rightarrow> bool \<Rightarrow> string list \<Rightarrow> session
     \<Rightarrow> answer \<times> string list \<times> session" where
  "read_answer q chs multi [] w = (EndOfInput, [], emit [Prompt, InputClosed] w)"
| "read_answer q chs multi (line # ins) w =
     (let w1 = emit [Prompt] w;
          letters = letters_of line
      in case letters of
           [] \<Rightarrow> read_answer q chs multi ins (emit [NeedLetter] w1)
         | l0 # _ \<Rightarrow>
             (let valid_letters = set (map fst chs)
              in if \<not> set letters \<subseteq> valid_letters then
                   read_answer q chs multi ins
                     (emit [InvalidOptions (sort (remdups (filter (\<lambda>l. l \<notin> valid_letters) letters)))] w1)
                 else if multi then
                   (if length (remdups letters) \<noteq> expected_n q then
                      read_answer q chs multi ins (emit [SelectExactly (expected_n q)] w1)
                    else (Answered (set letters = set (correct_letters q)), ins, w1))
                 else
                   (case correct_letters q of
                      [] \<Rightarrow> (Failed IndexError, ins, w1)
                    | c0 # _ \<Rightarrow> (Answered (l0 = c0), ins, w1))))"

text \<open>Lines 203 to 212: the counter of started questions, the header, the text, the
  working copy of the choices (shuffled on request) and its display.\<close>

definition display ::
  "bool \<Rightarrow> nat \<Rightarrow> nat \<Rightarrow> question \<Rightarrow> session \<Rightarrow> (char \<times> string) list \<times> session" where
  "display shuffle_choices total_n idx q st =
     (let st1 = emit [QuestionHeader idx total_n, QuestionText (q_text q)]
                  (st\<lparr>running_total := running_total st + 1\<rparr>)
      in case (if shuffle_choices then shuffle (choices q) (rng st1) else (choices q, rng st1)) of
           (chs, g) \<Rightarrow> (chs, emit (map (\<lambda>(l, t). ChoiceLine l t) chs) (st1\<lparr>rng := g\<rparr>)))"

text \<open>Lines 248 to 258; \<open>corr_texts\<close> is a dictionary, so a later choice with the same
  letter replaces an earlier one.\<close>

definition corr_info :: "question \<Rightarrow> (char \<times> string) list \<Rightarrow> (char \<times> string) list" where
  "corr_info q chs =
     map (\<lambda>l. (l, case map_of (rev chs) l of Some t \<Rightarrow> t | None \<Rightarrow> [])) (correct_letters q)"

definition score :: "question \<Rightarrow> (char \<times> string) list \<Rightarrow> bool \<Rightarrow> session \<Rightarrow> session" where
  "score q chs is_correct w =
     (let w1 = (if is_correct then emit [CorrectMsg] (w\<lparr>correct := correct w + 1\<rparr>)
                else emit [IncorrectMsg, CorrectAnswer (corr_info q chs)] w)
      in emit [Score (correct w1) (running_total w1)] w1)"

text \<open>The loop over the questions, \<open>idx\<close> counting from 1.\<close>

fun quiz_loop ::
  "bool \<Rightarrow> nat \<Rightarrow> nat \<Rightarrow> question list \<Rightarrow> string list \<Rightarrow> session
     \<Rightarrow> outcome \<times> string list \<times> session" where
  "quiz_loop shuffle_choices total_n idx [] ins st = (Completed, ins, st)"
| "quiz_loop shuffle_choices total_n idx (q # qs) ins st =
     (case display shuffle_choices total_n idx q st of
        (chs, w) \<Rightarrow>
          (let q' = infer_choose_n q
           in case read_answer q' chs (is_multi q') ins w of
                (EndOfInput, ins', w') \<Rightarrow> (Aborted, ins', w')
              | (Failed e, ins', w') \<Rightarrow> (Raised e, ins', w')
              | (Answered is_correct, ins', w') \<Rightarrow>
                  quiz_loop shuffle_choices total_n (Suc idx) qs ins' (score q' chs is_correct w')))"

text \<open>Lines 260 to 267, reached when the loop has run to its end.\<close>

definition final_summary :: "nat \<Rightarrow> session \<Rightarrow> outcome \<times> session" where
  "final_summary total_n st =
     (let st1 = emit [FinalScore (correct st) total_n] st
      in case py_truediv (correct st) total_n of
           Inl e \<Rightarrow> (Raised e, st1)
         | Inr final_score \<Rightarrow>
             if threshold \<le> final_score then (Completed, emit [Passed final_score] st1)
             else (Completed, emit [NotPassed] st1))"

text \<open>Lines 190 to 195: the optional shuffle of the questions and the optional
  truncation (\<open>select_questions\<close>), on the generator left by the optional seeding
  (\<open>seed_rng\<close>).\<close>

definition select_questions ::
  "question list \<Rightarrow> bool \<Rightarrow> int option \<Rightarrow> rng \<Rightarrow> question list \<times> rng" where
  "select_questions questions shuffle_questions limit g =
     (case (if shuffle_questions then shuffle questions g else (questions, g)) of
        (qs1, g1) \<Rightarrow> (case limit of None \<Rightarrow> (qs1, g1) | Some l \<Rightarrow> (slice_to qs1 l, g1)))"

definition seed_rng :: "int option \<Rightarrow> random_source \<Rightarrow> rng" where
  "seed_rng seed rs = (case seed of Some s \<Rightarrow> seeded rs s | None \<Rightarrow> ambient rs)"

text \<open>\<open>run_quiz\<close>; \<open>rs\<close> is the random generator and \<open>ins\<close> the lines of standard input.
  The result is how the call ends and the session at that point.\<close>

definition run_quiz ::
  "question list \<Rightarrow> bool \<Rightarrow> bool \<Rightarrow> int option \<Rightarrow> int option \<Rightarrow> random_source
     \<Rightarrow> string list \<Rightarrow> outcome \<times> session" where
  "run_quiz questions shuffle_questions shuffle_choices limit seed rs ins =
     (case select_questions questions shuffle_questions limit (seed_rng seed rs) of
        (qs, g1) \<Rightarrow>
          (let total_n = length qs
           in case quiz_loop shuffle_choices total_n 1 qs ins
                     \<lparr>correct = 0, running_total = 0, out = [], rng = g1\<rparr> of
                (Completed, ins', st) \<Rightarrow> final_summary total_n st
              | (oc, ins', st) \<Rightarrow> (oc, st)))"

text \<open>
  Reading what was printed: the messages of the validation loop that precede a new
  prompt, the lines of the final summary, the pass message, and the headers and
  question texts shown.
\<close>

fun is_retry :: "event \<Rightarrow> bool" where
  "is_retry Prompt = True"
| "is_retry NeedLetter = True"
| "is_retry (InvalidOptions ls) = True"
| "is_retry (SelectExactly n) = True"
| "is_retry e = False"

fun is_summary :: "event \<Rightarrow> bool" where
  "is_summary (FinalScore c t) = True"
| "is_summary (Passed r) = True"
| "is_summary NotPassed = True"
| "is_summary e = False"

fun is_pass :: "event \<Rightarrow> bool" where
  "is_pass (Passed r) = True"
| "is_pass e = False"

fun header_of :: "event \<Rightarrow> (nat \<times> nat) list" where
  "header_of (QuestionHeader i t) = [(i, t)]"
| "header_of e = []"

fun text_of :: "event \<Rightarrow> string list" where
  "text_of (QuestionText t) = [t]"
| "text_of e = []"

definition headers :: "event list \<Rightarrow> (nat \<times> nat) list" where
  "headers es = concat (map header_of es)"

definition texts :: "event list \<Rightarrow> string list" where
  "texts es = concat (map text_of es)"

text \<open>A random source for examples: no draws left, so every \<open>randbelow\<close> is 0.\<close>

definition no_draws :: random_source where
  "no_draws = \<lparr>ambient = [], seeded = (\<lambda>s. [])\<rparr>"

text \<open>The session when the first question of the canonical document, of two, has just
  been displayed.\<close>

definition w_ex :: session where
  "w_ex = \<lparr>correct = 0, running_total = 1,
       out = [QuestionHeader 1 2, QuestionText ''What is S3? (Choose one.)'',
              ChoiceLine CHR ''A'' ''Storage'', ChoiceLine CHR ''B'' ''Compute''],
       rng = []\<rparr>"

section \<open>The parser on the canonical document\<close>

text \<open>
  Claim C3. Parsing the canonical document of the specification yields exactly two
  questions, in document order: number 1 with \<open>choose_n = 1\<close>, correct letters \<open>[A]\<close>
  and two choices, then number 2 with \<open>choose_n = 2\<close>, correct letters \<open>[A, C]\<close> and
  three choices.
\<close>

theorem parse_canonical_doc:
  "parse_markdown_exam_text canonical_doc =
     [\<lparr>number = 1, q_text = ''What is S3? (Choose one.)'',
        choices = [(CHR ''A'', ''Storage''), (CHR ''B'', ''Compute'')],
        correct_letters = [CHR ''A''], choose_n = Some 1\<rparr>,
      \<lparr>number = 2, q_text = ''Pick two. (Choose two.)'',
        choices = [(CHR ''A'', ''X''), (CHR ''B'', ''Y''), (CHR ''C'', ''Z'')],
        correct_letters = [CHR ''A'', CHR ''C''], choose_n = Some 2\<rparr>]"
  by code_simp

section \<open>The session on degenerate inputs\<close>

lemma emit_emit: "emit es (emit ds w) = emit (ds @ es) w"
  by (simp add: emit_def)

lemma emit_fields [simp]:
  "correct (emit es w) = correct w" "running_total (emit es w) = running_total w"
  "rng (emit es w) = rng w" "out (emit es w) = out w @ es"
  by (simp_all add: emit_def)

lemma shuffle_Nil: "shuffle [] g = ([], g)"
  by (simp add: shuffle_def)

lemma select_questions_Nil: "fst (select_questions [] sq limit g) = []"
  by (cases limit) (simp_all add: select_questions_def shuffle_Nil slice_to_def split: prod.splits)

lemma select_questions_limit_0: "fst (select_questions qs sq (Some 0) g) = []"
  by (simp add: select_questions_def slice_to_def split: prod.splits)

lemma final_summary_0:
  "final_summary 0 st = (Raised ZeroDivisionError, emit [FinalScore (correct st) 0] st)"
  by (simp add: final_summary_def py_truediv_def)

text \<open>
  Claim C9. When the sequence of questions handed to the loop is empty (the list passed
  in is empty, or \<open>limit\<close> is 0), \<open>run_quiz\<close> prints the final score line \<open>0/0\<close> and
  then raises \<open>ZeroDivisionError\<close>: the division \<open>correct/total\<close> is not guarded.
\<close>

theorem empty_session_divides_by_zero:
  "(questions = [] \<or> limit = Some 0 \<longrightarrow>
      fst (select_questions questions shuffle_questions limit (seed_rng seed rs)) = [])
   \<and> (fst (select_questions questions shuffle_questions limit (seed_rng seed rs)) = [] \<longrightarrow>
      run_quiz questions shuffle_questions shuffle_choices limit seed rs ins =
        (Raised ZeroDivisionError,
         \<lparr>correct = 0, running_total = 0, out = [FinalScore 0 0],
          rng = snd (select_questions questions shuffle_questions limit (seed_rng seed rs))\<rparr>))"
proof (intro conjI impI)
  assume "questions = [] \<or> limit = Some 0"
  then show "fst (select_questions questions shuffle_questions limit (seed_rng seed rs)) = []"
    using select_questions_Nil select_questions_limit_0 by auto
next
  assume e: "fst (select_questions questions shuffle_questions limit (seed_rng seed rs)) = []"
  obtain qs g where s: "select_questions questions shuffle_questions limit (seed_rng seed rs) = (qs, g)"
    by (cases "select_questions questions shuffle_questions limit (seed_rng seed rs)")
  with e have "qs = []" by simp
  with s show "run_quiz questions shuffle_questions shuffle_choices limit seed rs ins =
        (Raised ZeroDivisionError,
         \<lparr>correct = 0, running_total = 0, out = [FinalScore 0 0],
          rng = snd (select_questions questions shuffle_questions limit (seed_rng seed rs))\<rparr>)"
    by (simp add: run_quiz_def final_summary_0 emit_def)
qed

theorem empty_session_divides_by_zero_witness:
  "run_quiz [] False False None None no_draws [''A''] =
     (Raised ZeroDivisionError, \<lparr>correct = 0, running_total = 0, out = [FinalScore 0 0], rng = []\<rparr>)
   \<and> run_quiz (parse_markdown_exam_text canonical_doc) False False (Some 0) None no_draws [''A''] =
     (Raised ZeroDivisionError, \<lparr>correct = 0, running_total = 0, out = [FinalScore 0 0], rng = []\<rparr>)"
proof -
  have a: "snd (select_questions [] False None (seed_rng None no_draws)) = []"
    by (simp add: select_questions_def seed_rng_def no_draws_def)
  have b: "snd (select_questions (parse_markdown_exam_text canonical_doc) False (Some 0)
             (seed_rng None no_draws)) = []"
    by (simp add: select_questions_def seed_rng_def no_draws_def)
  show ?thesis
    using empty_session_divides_by_zero [of "[]" None False None no_draws False "[''A'']"]
      empty_session_divides_by_zero [of "parse_markdown_exam_text canonical_doc" "Some 0" False None
        no_draws False "[''A'']"]
    by (simp add: a b)
qed

lemma run_quiz_stopped:
  assumes "select_questions questions sq limit (seed_rng seed rs) = (qs, g1)"
    and "quiz_loop sc (length qs) 1 qs ins \<lparr>correct = 0, running_total = 0, out = [], rng = g1\<rparr>
           = (oc, ins', st)"
    and "oc \<noteq> Completed"
  shows "run_quiz questions sq sc limit seed rs ins = (oc, st)"
  using assms by (cases oc) (simp_all add: run_quiz_def del: quiz_loop.simps)

lemma run_quiz_completed:
  assumes "select_questions questions sq limit (seed_rng seed rs) = (qs, g1)"
    and "quiz_loop sc (length qs) 1 qs ins \<lparr>correct = 0, running_total = 0, out = [], rng = g1\<rparr>
           = (Completed, ins', st)"
  shows "run_quiz questions sq sc limit seed rs ins = final_summary (length qs) st"
  using assms by (simp add: run_quiz_def del: quiz_loop.simps)

text \<open>
  Claim C1. A question with choices and no \<open>Correct Answer\<close> line is emitted by the
  parser with empty \<open>correct_letters\<close>. In the session, however, the valid submission
  \<open>A\<close> for it is not scored incorrect: the question is in single-select mode, and
  \<open>q.correct_letters[0]\<close> raises \<open>IndexError\<close>.
\<close>

theorem missing_correct_answer_raises:
  "parse_markdown_exam_text no_answer_doc =
     [\<lparr>number = 1, q_text = ''What is S3?'',
       choices = [(CHR ''A'', ''Storage''), (CHR ''B'', ''Compute'')],
       correct_letters = [], choose_n = None\<rparr>]
   \<and> run_quiz (parse_markdown_exam_text no_answer_doc) False False None None rs [''A''] =
     (Raised IndexError,
      \<lparr>correct = 0, running_total = 1,
       out = [QuestionHeader 1 1, QuestionText ''What is S3?'',
              ChoiceLine CHR ''A'' ''Storage'', ChoiceLine CHR ''B'' ''Compute'', Prompt],
       rng = ambient rs\<rparr>)"
proof
  show p: "parse_markdown_exam_text no_answer_doc =
     [\<lparr>number = 1, q_text = ''What is S3?'',
       choices = [(CHR ''A'', ''Storage''), (CHR ''B'', ''Compute'')],
       correct_letters = [], choose_n = None\<rparr>]"
    by code_simp
  show "run_quiz (parse_markdown_exam_text no_answer_doc) False False None None rs [''A''] =
     (Raised IndexError,
      \<lparr>correct = 0, running_total = 1,
       out = [QuestionHeader 1 1, QuestionText ''What is S3?'',
              ChoiceLine CHR ''A'' ''Storage'', ChoiceLine CHR ''B'' ''Compute'', Prompt],
       rng = ambient rs\<rparr>)"
  proof (rule run_quiz_stopped)
    show "select_questions (parse_markdown_exam_text no_answer_doc) False None (seed_rng None rs)
            = (parse_markdown_exam_text no_answer_doc, ambient rs)"
      by (simp add: select_questions_def seed_rng_def)
    show "quiz_loop False (length (parse_markdown_exam_text no_answer_doc)) 1
            (parse_markdown_exam_text no_answer_doc) [''A'']
            \<lparr>correct = 0, running_total = 0, out = [], rng = ambient rs\<rparr> =
          (Raised IndexError, [],
           \<lparr>correct = 0, running_total = 1,
            out = [QuestionHeader 1 1, QuestionText ''What is S3?'',
              ChoiceLine CHR ''A'' ''Storage'', ChoiceLine CHR ''B'' ''Compute'', Prompt],
            rng = ambient rs\<rparr>)"
      by code_simp
    show "Raised IndexError \<noteq> Completed" by simp
  qed
qed

section \<open>The validation loop\<close>

lemma infer_choose_n_Some: "choose_n q = Some n \<Longrightarrow> infer_choose_n q = q"
  by (simp add: infer_choose_n_def)

lemma len_set_letters: "length (remdups ls) = card (set ls)"
  by (simp add: length_remdups_card_conv)

lemma read_answer_no_letter:
  "letters_of line = [] \<Longrightarrow>
     read_answer q chs multi (line # ins) w = read_answer q chs multi ins (emit [Prompt, NeedLetter] w)"
  by (simp add: emit_emit)

lemma read_answer_letters_aux:
  "letters_of line = l0 # ls \<Longrightarrow>
     read_answer q chs multi (line # ins) w =
       (if \<not> set (l0 # ls) \<subseteq> fst ` set chs then
          read_answer q chs multi ins
            (emit [Prompt, InvalidOptions
               (sort (remdups (filter (\<lambda>l. l \<notin> fst ` set chs) (l0 # ls))))] w)
        else if multi then
          (if card (set (l0 # ls)) \<noteq> expected_n q then
             read_answer q chs multi ins (emit [Prompt, SelectExactly (expected_n q)] w)
           else (Answered (set (l0 # ls) = set (correct_letters q)), ins, emit [Prompt] w))
        else
          (case correct_letters q of
             [] \<Rightarrow> (Failed IndexError, ins, emit [Prompt] w)
           | c0 # cs \<Rightarrow> (Answered (l0 = c0), ins, emit [Prompt] w)))"
  by (simp add: Let_def emit_emit len_set_letters
      del: remdups.simps list.set set_simps filter.simps)

lemma read_answer_letters:
  assumes "letters_of line \<noteq> []"
  shows "read_answer q chs multi (line # ins) w =
       (if \<not> set (letters_of line) \<subseteq> fst ` set chs then
          read_answer q chs multi ins
            (emit [Prompt, InvalidOptions
               (sort (remdups (filter (\<lambda>l. l \<notin> fst ` set chs) (letters_of line))))] w)
        else if multi then
          (if card (set (letters_of line)) \<noteq> expected_n q then
             read_answer q chs multi ins (emit [Prompt, SelectExactly (expected_n q)] w)
           else (Answered (set (letters_of line) = set (correct_letters q)), ins, emit [Prompt] w))
        else
          (case correct_letters q of
             [] \<Rightarrow> (Failed IndexError, ins, emit [Prompt] w)
           | c0 # cs \<Rightarrow> (Answered (hd (letters_of line) = c0), ins, emit [Prompt] w)))"
proof -
  from assms obtain l0 ls where l: "letters_of line = l0 # ls"
    by (cases "letters_of line") auto
  have h: "hd (l0 # ls) = l0" by simp
  show ?thesis unfolding l h by (rule read_answer_letters_aux [OF l])
qed

text \<open>
  Claim C4. For a question with \<open>choose_n = 2\<close>, a submission whose letters are all
  valid is accepted when it has exactly two distinct letters, and scored by set equality
  with the correct letters; with any other number of distinct letters (1 or 3, say) it
  is rejected with the message that asks for exactly 2 letters, and the loop prompts
  again. Only the set of extracted upper-cased letters matters, so order, case and
  separators do not.
\<close>

theorem multi_select_count_enforced:
  assumes "choose_n q = Some 2"
    and "letters_of line \<noteq> []"
    and "set (letters_of line) \<subseteq> fst ` set chs"
  shows "(card (set (letters_of line)) = 2 \<longrightarrow>
            read_answer (infer_choose_n q) chs (is_multi (infer_choose_n q)) (line # ins) w =
              (Answered (set (letters_of line) = set (correct_letters q)), ins, emit [Prompt] w))
       \<and> (card (set (letters_of line)) \<noteq> 2 \<longrightarrow>
            read_answer (infer_choose_n q) chs (is_multi (infer_choose_n q)) (line # ins) w =
              read_answer (infer_choose_n q) chs (is_multi (infer_choose_n q)) ins
                (emit [Prompt, SelectExactly 2] w))"
proof -
  from assms(1) have q: "infer_choose_n q = q" by (rule infer_choose_n_Some)
  from assms(1) have m: "is_multi q" and e: "expected_n q = 2"
    by (simp_all add: is_multi_def expected_n_def)
  show ?thesis
    using assms(3) m e by (simp add: q read_answer_letters [OF assms(2)] del: read_answer.simps)
qed

theorem multi_select_count_enforced_witness:
  "choose_n canonical_q2 = Some 2
   \<and> letters_of ''AC'' = ''AC'' \<and> letters_of ''A,C'' = ''AC'' \<and> letters_of ''a, c'' = ''AC''
   \<and> letters_of ''A'' = ''A''
   \<and> read_answer (infer_choose_n canonical_q2) (choices canonical_q2)
        (is_multi (infer_choose_n canonical_q2)) [''a, c'', ''B''] w_ex =
          (Answered True, [''B''], emit [Prompt] w_ex)
   \<and> read_answer (infer_choose_n canonical_q2) (choices canonical_q2)
        (is_multi (infer_choose_n canonical_q2)) [''A'', ''B''] w_ex =
          read_answer (infer_choose_n canonical_q2) (choices canonical_q2)
            (is_multi (infer_choose_n canonical_q2)) [''B''] (emit [Prompt, SelectExactly 2] w_ex)"
proof -
  let ?q = canonical_q2
  have l1: "letters_of ''AC'' = ''AC''" and l2: "letters_of ''A,C'' = ''AC''"
    and l3: "letters_of ''a, c'' = ''AC''" and l4: "letters_of ''A'' = ''A''"
    by code_simp+
  have c: "choose_n ?q = Some 2" by (simp add: canonical_q2_def)
  have s3: "set (letters_of ''a, c'') \<subseteq> fst ` set (choices ?q)"
    and s4: "set (letters_of ''A'') \<subseteq> fst ` set (choices ?q)"
    by (simp_all add: l3 l4 canonical_q2_def)
  have n3: "letters_of ''a, c'' \<noteq> []" and n4: "letters_of ''A'' \<noteq> []"
    by (simp_all add: l3 l4)
  have c3: "card (set (letters_of ''a, c'')) = 2" and c4: "card (set (letters_of ''A'')) \<noteq> 2"
    by (simp_all add: l3 l4)
  have e3: "set (letters_of ''a, c'') = set (correct_letters ?q)"
    by (simp add: l3 canonical_q2_def)
  have r3: "read_answer (infer_choose_n ?q) (choices ?q) (is_multi (infer_choose_n ?q))
              [''a, c'', ''B''] w_ex = (Answered True, [''B''], emit [Prompt] w_ex)"
    using multi_select_count_enforced [OF c n3 s3, of "[''B'']" w_ex] c3 e3
    by (simp del: read_answer.simps)
  have r4: "read_answer (infer_choose_n ?q) (choices ?q) (is_multi (infer_choose_n ?q))
              [''A'', ''B''] w_ex =
            read_answer (infer_choose_n ?q) (choices ?q) (is_multi (infer_choose_n ?q)) [''B'']
              (emit [Prompt, SelectExactly 2] w_ex)"
    using multi_select_count_enforced [OF c n4 s4, of "[''B'']" w_ex] c4
    by (simp del: read_answer.simps)
  show ?thesis
    using c l1 l2 l3 l4 r3 r4 by blast
qed

section \<open>Facts about one question of the session\<close>

lemma read_answer_never_true:
  assumes "card (set (correct_letters q)) \<noteq> expected_n q"
  shows "fst (read_answer q chs True ins w) \<noteq> Answered True"
proof (induction ins arbitrary: w)
  case Nil
  then show ?case by simp
next
  case (Cons line ins)
  show ?case
  proof (cases "letters_of line = []")
    case True
    with Cons show ?thesis by (simp add: read_answer_no_letter del: read_answer.simps)
  next
    case False
    with Cons assms show ?thesis
      by (auto simp: read_answer_letters simp del: read_answer.simps)
  qed
qed

lemma quiz_loop_step:
  assumes "display sc total_n idx q st = (chs, w)"
    and "read_answer (infer_choose_n q) chs (is_multi (infer_choose_n q)) ins w = (a, ins1, w1)"
  shows "quiz_loop sc total_n idx (q # qs) ins st =
           (case a of
              EndOfInput \<Rightarrow> (Aborted, ins1, w1)
            | Failed e \<Rightarrow> (Raised e, ins1, w1)
            | Answered ok \<Rightarrow>
                quiz_loop sc total_n (Suc idx) qs ins1 (score (infer_choose_n q) chs ok w1))"
  using assms by (simp add: Let_def split: answer.splits)

lemma randbelow_less: "0 < n \<Longrightarrow> fst (randbelow n g) < n"
  by (cases g) (simp_all add: randbelow_def)

lemma shuffle_loop_set:
  "i < length xs \<Longrightarrow> set (fst (shuffle_loop i xs g)) = set xs"
proof (induction i arbitrary: xs g)
  case 0
  then show ?case by simp
next
  case (Suc i)
  obtain j g' where r: "randbelow (Suc i + 1) g = (j, g')"
    by (cases "randbelow (Suc i + 1) g")
  have "fst (randbelow (Suc i + 1) g) < Suc i + 1" by (rule randbelow_less) simp
  with r Suc.prems have j: "j < length xs" by simp
  let ?ys = "xs[Suc i := xs ! j, j := xs ! Suc i]"
  have "set ?ys = set xs" using Suc.prems j by (simp add: set_swap)
  moreover have "i < length ?ys" using Suc.prems by simp
  ultimately have "set (fst (shuffle_loop i ?ys g')) = set xs"
    using Suc.IH [of ?ys g'] by simp
  with r show ?case by simp
qed

lemma shuffle_set: "set (fst (shuffle xs g)) = set xs"
proof (cases xs)
  case Nil
  then show ?thesis by (simp add: shuffle_def)
next
  case (Cons x ys)
  then have "length xs - 1 < length xs" by simp
  then show ?thesis unfolding shuffle_def by (rule shuffle_loop_set)
qed

lemma display_fields:
  assumes "display sc total_n idx q st = (chs, w)"
  shows "correct w = correct st" and "running_total w = Suc (running_total st)"
    and "out w = out st @ [QuestionHeader idx total_n, QuestionText (q_text q)]
           @ map (\<lambda>(l, t). ChoiceLine l t) chs"
    and "set chs = set (choices q)" and "\<not> sc \<Longrightarrow> chs = choices q"
proof -
  obtain xs g where s: "(if sc then shuffle (choices q) (rng st) else (choices q, rng st)) = (xs, g)"
    by (cases "if sc then shuffle (choices q) (rng st) else (choices q, rng st)")
  with assms have cw: "chs = xs \<and> w = emit (map (\<lambda>(l, t). ChoiceLine l t) xs)
                 ((emit [QuestionHeader idx total_n, QuestionText (q_text q)]
                    (st\<lparr>running_total := running_total st + 1\<rparr>))\<lparr>rng := g\<rparr>)"
    by (cases sc) (auto simp: display_def Let_def)
  then have c: "chs = xs"
    and w: "w = emit (map (\<lambda>(l, t). ChoiceLine l t) xs)
                 ((emit [QuestionHeader idx total_n, QuestionText (q_text q)]
                    (st\<lparr>running_total := running_total st + 1\<rparr>))\<lparr>rng := g\<rparr>)"
    by simp_all
  show "correct w = correct st" by (simp add: w emit_def)
  show "running_total w = Suc (running_total st)" by (simp add: w emit_def)
  show "out w = out st @ [QuestionHeader idx total_n, QuestionText (q_text q)]
           @ map (\<lambda>(l, t). ChoiceLine l t) chs" by (simp add: w c emit_def)
  show "set chs = set (choices q)"
    using s shuffle_set [of "choices q" "rng st"] by (auto simp: c split: if_splits)
  show "\<not> sc \<Longrightarrow> chs = choices q" using s by (simp add: c)
qed

lemma score_fields:
  "correct (score q chs ok w) = (if ok then Suc (correct w) else correct w)"
  "running_total (score q chs ok w) = running_total w"
  "out (score q chs ok w) =
     out w @ (if ok then [CorrectMsg] else [IncorrectMsg, CorrectAnswer (corr_info q chs)])
       @ [Score (if ok then Suc (correct w) else correct w) (running_total w)]"
  by (simp_all add: score_def Let_def)

lemma read_answer_fields:
  "read_answer q chs multi ins w = (a, ins', w') \<Longrightarrow>
     correct w' = correct w \<and> running_total w' = running_total w \<and> rng w' = rng w"
proof (induction ins arbitrary: w)
  case Nil
  then show ?case by auto
next
  case (Cons line ins)
  show ?case
  proof (cases "letters_of line = []")
    case True
    with Cons.prems have "read_answer q chs multi ins (emit [Prompt, NeedLetter] w) = (a, ins', w')"
      by (simp add: read_answer_no_letter del: read_answer.simps)
    from Cons.IH [OF this] show ?thesis by simp
  next
    case False
    let ?inv = "InvalidOptions (sort (remdups (filter (\<lambda>l. l \<notin> fst ` set chs) (letters_of line))))"
    from Cons.prems consider
        "read_answer q chs multi ins (emit [Prompt, ?inv] w) = (a, ins', w')"
      | "read_answer q chs multi ins (emit [Prompt, SelectExactly (expected_n q)] w) = (a, ins', w')"
      | "w' = emit [Prompt] w"
      unfolding read_answer_letters [OF False]
      by (auto split: if_splits list.splits)
    then show ?thesis
    proof cases
      case 1
      from Cons.IH [OF this] show ?thesis by simp
    next
      case 2
      from Cons.IH [OF this] show ?thesis by simp
    next
      case 3
      then show ?thesis by simp
    qed
  qed
qed

lemma read_answer_eof:
  "read_answer q chs multi ins w = (EndOfInput, ins', w') \<Longrightarrow>
     ins' = [] \<and> (\<exists>ms. out w' = out w @ ms @ [Prompt, InputClosed] \<and> list_all is_retry ms)"
proof (induction ins arbitrary: w)
  case Nil
  then show ?case by auto
next
  case (Cons line ins)
  show ?case
  proof (cases "letters_of line = []")
    case True
    with Cons.prems have "read_answer q chs multi ins (emit [Prompt, NeedLetter] w) = (EndOfInput, ins', w')"
      by (simp add: read_answer_no_letter del: read_answer.simps)
    from Cons.IH [OF this] obtain ms where "ins' = []"
      and "out w' = out w @ ([Prompt, NeedLetter] @ ms) @ [Prompt, InputClosed]" and "list_all is_retry ms"
      by auto
    then show ?thesis by (intro conjI exI [of _ "[Prompt, NeedLetter] @ ms"]) simp_all
  next
    case False
    let ?inv = "InvalidOptions (sort (remdups (filter (\<lambda>l. l \<notin> fst ` set chs) (letters_of line))))"
    from Cons.prems consider
        "read_answer q chs multi ins (emit [Prompt, ?inv] w) = (EndOfInput, ins', w')"
      | "read_answer q chs multi ins (emit [Prompt, SelectExactly (expected_n q)] w) = (EndOfInput, ins', w')"
      unfolding read_answer_letters [OF False]
      by (auto split: if_splits list.splits)
    then show ?thesis
    proof cases
      case 1
      from Cons.IH [OF this] obtain ms where "ins' = []"
        and "out w' = out w @ ([Prompt, ?inv] @ ms) @ [Prompt, InputClosed]" and "list_all is_retry ms"
        by auto
      then show ?thesis by (intro conjI exI [of _ "[Prompt, ?inv] @ ms"]) simp_all
    next
      case 2
      from Cons.IH [OF this] obtain ms where "ins' = []"
        and "out w' = out w @ ([Prompt, SelectExactly (expected_n q)] @ ms) @ [Prompt, InputClosed]"
        and "list_all is_retry ms"
        by auto
      then show ?thesis
        by (intro conjI exI [of _ "[Prompt, SelectExactly (expected_n q)] @ ms"]) simp_all
    qed
  qed
qed

lemma read_answer_out:
  "read_answer q chs multi ins w = (a, ins', w') \<Longrightarrow>
     \<exists>ms. out w' = out w @ ms \<and> list_all (\<lambda>e. is_retry e \<or> e = InputClosed) ms"
proof (induction ins arbitrary: w)
  case Nil
  then show ?case by auto
next
  case (Cons line ins)
  show ?case
  proof (cases "letters_of line = []")
    case True
    with Cons.prems have "read_answer q chs multi ins (emit [Prompt, NeedLetter] w) = (a, ins', w')"
      by (simp add: read_answer_no_letter del: read_answer.simps)
    from Cons.IH [OF this] obtain ms where
      "out w' = out w @ ([Prompt, NeedLetter] @ ms)" and "list_all (\<lambda>e. is_retry e \<or> e = InputClosed) ms"
      by auto
    then show ?thesis by (intro exI [of _ "[Prompt, NeedLetter] @ ms"]) simp
  next
    case False
    let ?inv = "InvalidOptions (sort (remdups (filter (\<lambda>l. l \<notin> fst ` set chs) (letters_of line))))"
    from Cons.prems consider
        "read_answer q chs multi ins (emit [Prompt, ?inv] w) = (a, ins', w')"
      | "read_answer q chs multi ins (emit [Prompt, SelectExactly (expected_n q)] w) = (a, ins', w')"
      | "w' = emit [Prompt] w"
      unfolding read_answer_letters [OF False]
      by (auto split: if_splits list.splits)
    then show ?thesis
    proof cases
      case 1
      from Cons.IH [OF this] obtain ms where
        "out w' = out w @ ([Prompt, ?inv] @ ms)" and "list_all (\<lambda>e. is_retry e \<or> e = InputClosed) ms"
        by auto
      then show ?thesis by (intro exI [of _ "[Prompt, ?inv] @ ms"]) simp
    next
      case 2
      from Cons.IH [OF this] obtain ms where
        "out w' = out w @ ([Prompt, SelectExactly (expected_n q)] @ ms)"
        and "list_all (\<lambda>e. is_retry e \<or> e = InputClosed) ms"
        by auto
      then show ?thesis by (intro exI [of _ "[Prompt, SelectExactly (expected_n q)] @ ms"]) simp
    next
      case 3
      then show ?thesis by (intro exI [of _ "[Prompt]"]) simp
    qed
  qed
qed

section \<open>Scoring and end of input\<close>

text \<open>
  Claim C10. For a question whose \<open>choose_n\<close> is at least 2 and differs from the number
  of distinct correct letters, no input is ever scored correct: whatever lines are read,
  the validation loop never returns a correct answer, and the loop over the question
  leaves the count of correct answers as it was.
\<close>

theorem mismatched_choose_n_never_correct:
  assumes "choose_n q = Some n" and "2 \<le> n" and "card (set (correct_letters q)) \<noteq> n"
  shows "fst (read_answer (infer_choose_n q) chs (is_multi (infer_choose_n q)) ins w) \<noteq> Answered True
       \<and> (\<forall>oc ins' st'. quiz_loop shuffle_choices total_n idx [q] ins st = (oc, ins', st')
             \<longrightarrow> correct st' = correct st)"
proof -
  from assms(1) have q: "infer_choose_n q = q" by (rule infer_choose_n_Some)
  from assms(1,2) have m: "is_multi q" and e: "expected_n q = n"
    by (simp_all add: is_multi_def expected_n_def)
  from assms(3) e have ne: "card (set (correct_letters q)) \<noteq> expected_n q" by simp
  have never: "\<And>chs ins w. fst (read_answer q chs True ins w) \<noteq> Answered True"
    by (rule read_answer_never_true [OF ne])
  show ?thesis
  proof (intro conjI allI impI)
    show "fst (read_answer (infer_choose_n q) chs (is_multi (infer_choose_n q)) ins w) \<noteq> Answered True"
      using never m by (simp add: q)
  next
    fix oc ins' st'
    assume l: "quiz_loop shuffle_choices total_n idx [q] ins st = (oc, ins', st')"
    obtain dchs w0 where d: "display shuffle_choices total_n idx q st = (dchs, w0)"
      by (cases "display shuffle_choices total_n idx q st")
    obtain a ins1 w1 where r: "read_answer q dchs True ins w0 = (a, ins1, w1)"
      by (cases "read_answer q dchs True ins w0")
    have r': "read_answer (infer_choose_n q) dchs (is_multi (infer_choose_n q)) ins w0 = (a, ins1, w1)"
      using r m by (simp add: q)
    have c0: "correct w0 = correct st" by (rule display_fields(1) [OF d])
    have c1: "correct w1 = correct w0" using read_answer_fields [OF r] by simp
    have na: "a \<noteq> Answered True" using never [of dchs ins w0] r by simp
    show "correct st' = correct st"
    proof (cases a)
      case (Answered ok)
      with na have "\<not> ok" by simp
      with l Answered have "st' = score q dchs False w1"
        unfolding quiz_loop_step [OF d r'] by (simp add: q)
      then show ?thesis by (simp add: score_fields c0 c1)
    next
      case EndOfInput
      with l have "st' = w1" unfolding quiz_loop_step [OF d r'] by simp
      then show ?thesis by (simp add: c0 c1)
    next
      case (Failed e)
      with l have "st' = w1" unfolding quiz_loop_step [OF d r'] by simp
      then show ?thesis by (simp add: c0 c1)
    qed
  qed
qed

theorem mismatched_choose_n_never_correct_witness:
  "choose_n (canonical_q2\<lparr>correct_letters := [CHR ''A'']\<rparr>) = Some 2 \<and> (2::nat) \<le> 2
   \<and> card (set (correct_letters (canonical_q2\<lparr>correct_letters := [CHR ''A'']\<rparr>))) \<noteq> 2
   \<and> fst (read_answer (infer_choose_n (canonical_q2\<lparr>correct_letters := [CHR ''A'']\<rparr>))
            (choices canonical_q2)
            (is_multi (infer_choose_n (canonical_q2\<lparr>correct_letters := [CHR ''A'']\<rparr>)))
            [''A'', ''AB'', ''AC''] w_ex) \<noteq> Answered True
   \<and> fst (read_answer (infer_choose_n (canonical_q2\<lparr>correct_letters := [CHR ''A'']\<rparr>))
            (choices canonical_q2)
            (is_multi (infer_choose_n (canonical_q2\<lparr>correct_letters := [CHR ''A'']\<rparr>)))
            [''A'', ''AB'', ''AC''] w_ex) = Answered False"
proof -
  let ?q = "canonical_q2\<lparr>correct_letters := [CHR ''A'']\<rparr>"
  have c: "choose_n ?q = Some 2" and c': "card (set (correct_letters ?q)) \<noteq> 2"
    by (simp_all add: canonical_q2_def)
  have f: "fst (read_answer (infer_choose_n ?q) (choices canonical_q2) (is_multi (infer_choose_n ?q))
              [''A'', ''AB'', ''AC''] w_ex) = Answered False"
    by code_simp
  from mismatched_choose_n_never_correct [OF c order_refl c', of "choices canonical_q2"
      "[''A'', ''AB'', ''AC'']" w_ex]
  have "fst (read_answer (infer_choose_n ?q) (choices canonical_q2) (is_multi (infer_choose_n ?q))
              [''A'', ''AB'', ''AC''] w_ex) \<noteq> Answered True"
    by (rule conjunct1)
  with c c' f show ?thesis by simp
qed

lemma list_all_retry_no_summary: "list_all (\<lambda>e. is_retry e \<or> e = InputClosed) ms
   \<Longrightarrow> list_all (\<lambda>e. \<not> is_summary e) ms"
proof (induction ms)
  case Nil
  then show ?case by simp
next
  case (Cons e ms)
  then show ?case by (cases e) auto
qed

lemma quiz_loop_no_summary:
  "quiz_loop sc total_n idx qs ins st = (oc, ins', st') \<Longrightarrow>
   list_all (\<lambda>e. \<not> is_summary e) (out st) \<Longrightarrow> list_all (\<lambda>e. \<not> is_summary e) (out st')"
proof (induction qs arbitrary: idx ins st)
  case Nil
  then show ?case by simp
next
  case (Cons q qs)
  obtain chs w where d: "display sc total_n idx q st = (chs, w)"
    by (cases "display sc total_n idx q st")
  obtain a ins1 w1 where
    r: "read_answer (infer_choose_n q) chs (is_multi (infer_choose_n q)) ins w = (a, ins1, w1)"
    by (cases "read_answer (infer_choose_n q) chs (is_multi (infer_choose_n q)) ins w")
  have "list_all (\<lambda>e. \<not> is_summary e) (out w)"
    using Cons.prems(2) by (auto simp: display_fields(3) [OF d] list_all_iff)
  moreover from read_answer_out [OF r] obtain ms where
    "out w1 = out w @ ms" and "list_all (\<lambda>e. is_retry e \<or> e = InputClosed) ms" by auto
  ultimately have w1: "list_all (\<lambda>e. \<not> is_summary e) (out w1)"
    using list_all_retry_no_summary by auto
  show ?case
  proof (cases a)
    case (Answered ok)
    with Cons.prems(1) have
      "quiz_loop sc total_n (Suc idx) qs ins1 (score (infer_choose_n q) chs ok w1) = (oc, ins', st')"
      unfolding quiz_loop_step [OF d r] by simp
    moreover have "list_all (\<lambda>e. \<not> is_summary e) (out (score (infer_choose_n q) chs ok w1))"
      using w1 by (simp add: score_fields)
    ultimately show ?thesis by (rule Cons.IH)
  next
    case EndOfInput
    with Cons.prems(1) w1 show ?thesis unfolding quiz_loop_step [OF d r] by auto
  next
    case (Failed e)
    with Cons.prems(1) w1 show ?thesis unfolding quiz_loop_step [OF d r] by auto
  qed
qed

lemma quiz_loop_aborted:
  "quiz_loop sc total_n idx qs ins st = (Aborted, ins', st') \<Longrightarrow>
   ins' = [] \<and> (\<exists>ms. out st' = ms @ [Prompt, InputClosed])"
proof (induction qs arbitrary: idx ins st)
  case Nil
  then show ?case by simp
next
  case (Cons q qs)
  obtain chs w where d: "display sc total_n idx q st = (chs, w)"
    by (cases "display sc total_n idx q st")
  obtain a ins1 w1 where
    r: "read_answer (infer_choose_n q) chs (is_multi (infer_choose_n q)) ins w = (a, ins1, w1)"
    by (cases "read_answer (infer_choose_n q) chs (is_multi (infer_choose_n q)) ins w")
  show ?case
  proof (cases a)
    case (Answered ok)
    with Cons.prems(1) have
      "quiz_loop sc total_n (Suc idx) qs ins1 (score (infer_choose_n q) chs ok w1) = (Aborted, ins', st')"
      unfolding quiz_loop_step [OF d r] by simp
    then show ?thesis by (rule Cons.IH)
  next
    case EndOfInput
    with Cons.prems(1) have "st' = w1" and "ins' = ins1"
      unfolding quiz_loop_step [OF d r] by auto
    with read_answer_eof [of "infer_choose_n q" chs "is_multi (infer_choose_n q)" ins w ins1 w1]
      r EndOfInput
    show ?thesis by auto
  next
    case (Failed e)
    with Cons.prems(1) show ?thesis unfolding quiz_loop_step [OF d r] by auto
  qed
qed

text \<open>
  Claim C5. When the input ends while the validation loop of a question is waiting
  (\<open>read_answer\<close> returns \<open>EndOfInput\<close> from the session \<open>w\<close> in which the loop was
  entered), the loop over the questions stops at once with that session: the remaining
  questions are not visited, \<open>correct\<close> and \<open>running_total\<close> are as they were in \<open>w\<close>,
  \<open>correct\<close> is as before the question, and what was printed since is retry messages
  followed by the prompt and the notice, so no score line for this question. A call of
  \<open>run_quiz\<close> that ends this way has printed the notice last and no line of the final
  summary (final score, pass or fail message).
\<close>

theorem end_of_input_aborts:
  "(display shuffle_choices total_n idx q st = (chs, w) \<and>
    read_answer (infer_choose_n q) chs (is_multi (infer_choose_n q)) ins w = (EndOfInput, ins', w')
    \<longrightarrow> quiz_loop shuffle_choices total_n idx (q # qs) ins st = (Aborted, ins', w')
        \<and> correct w' = correct w \<and> running_total w' = running_total w
        \<and> correct w' = correct st
        \<and> (\<exists>ms. out w' = out w @ ms @ [Prompt, InputClosed] \<and> list_all is_retry ms))
   \<and> (run_quiz questions shuffle_questions shuffle_choices limit seed rs all_ins = (Aborted, st')
    \<longrightarrow> (\<exists>ms. out st' = ms @ [Prompt, InputClosed]) \<and> list_all (\<lambda>e. \<not> is_summary e) (out st'))"
proof (intro conjI impI)
  assume a: "display shuffle_choices total_n idx q st = (chs, w) \<and>
    read_answer (infer_choose_n q) chs (is_multi (infer_choose_n q)) ins w = (EndOfInput, ins', w')"
  then have d: "display shuffle_choices total_n idx q st = (chs, w)"
    and r: "read_answer (infer_choose_n q) chs (is_multi (infer_choose_n q)) ins w = (EndOfInput, ins', w')"
    by simp_all
  show "quiz_loop shuffle_choices total_n idx (q # qs) ins st = (Aborted, ins', w')"
    unfolding quiz_loop_step [OF d r] by simp
  show "correct w' = correct w" and "running_total w' = running_total w"
    using read_answer_fields [OF r] by simp_all
  then show "correct w' = correct st" using display_fields(1) [OF d] by simp
  show "\<exists>ms. out w' = out w @ ms @ [Prompt, InputClosed] \<and> list_all is_retry ms"
    using read_answer_eof [OF r] by simp
next
  assume run: "run_quiz questions shuffle_questions shuffle_choices limit seed rs all_ins = (Aborted, st')"
  obtain sel g1 where s: "select_questions questions shuffle_questions limit (seed_rng seed rs) = (sel, g1)"
    by (cases "select_questions questions shuffle_questions limit (seed_rng seed rs)")
  let ?st0 = "\<lparr>correct = 0, running_total = 0, out = [], rng = g1\<rparr>"
  obtain oc ins1 st1 where l: "quiz_loop shuffle_choices (length sel) 1 sel all_ins ?st0 = (oc, ins1, st1)"
    by (cases "quiz_loop shuffle_choices (length sel) 1 sel all_ins ?st0")
  have "oc = Aborted \<and> st1 = st'"
  proof (cases "oc = Completed")
    case True
    with run_quiz_completed [OF s, of shuffle_choices all_ins ins1 st1] l run
    have "final_summary (length sel) st1 = (Aborted, st')" by simp
    then show ?thesis
      by (auto simp: final_summary_def Let_def split: sum.splits if_splits)
  next
    case False
    from run_quiz_stopped [OF s l False] run show ?thesis by simp
  qed
  with l have l': "quiz_loop shuffle_choices (length sel) 1 sel all_ins ?st0 = (Aborted, ins1, st')"
    by simp
  show "\<exists>ms. out st' = ms @ [Prompt, InputClosed]"
    using quiz_loop_aborted [OF l'] by simp
  show "list_all (\<lambda>e. \<not> is_summary e) (out st')"
    using quiz_loop_no_summary [OF l'] by simp
qed

theorem end_of_input_aborts_witness:
  "display False 2 1 canonical_q1 \<lparr>correct = 0, running_total = 0, out = [], rng = []\<rparr>
      = (choices canonical_q1, w_ex)
   \<and> read_answer (infer_choose_n canonical_q1) (choices canonical_q1)
        (is_multi (infer_choose_n canonical_q1)) [] w_ex
      = (EndOfInput, [], emit [Prompt, InputClosed] w_ex)
   \<and> quiz_loop False 2 1 [canonical_q1, canonical_q2] []
        \<lparr>correct = 0, running_total = 0, out = [], rng = []\<rparr>
      = (Aborted, [], emit [Prompt, InputClosed] w_ex)
   \<and> run_quiz [canonical_q1, canonical_q2] False False None None no_draws []
      = (Aborted, emit [Prompt, InputClosed] w_ex)
   \<and> list_all (\<lambda>e. \<not> is_summary e) (out (emit [Prompt, InputClosed] w_ex))"
proof -
  let ?st0 = "\<lparr>correct = 0, running_total = 0, out = [], rng = []\<rparr>"
  let ?w' = "emit [Prompt, InputClosed] w_ex"
  have d: "display False 2 1 canonical_q1 ?st0 = (choices canonical_q1, w_ex)"
    by code_simp
  have r: "read_answer (infer_choose_n canonical_q1) (choices canonical_q1)
        (is_multi (infer_choose_n canonical_q1)) [] w_ex = (EndOfInput, [], ?w')"
    by simp
  have run: "run_quiz [canonical_q1, canonical_q2] False False None None no_draws [] = (Aborted, ?w')"
  proof (rule run_quiz_stopped)
    show "select_questions [canonical_q1, canonical_q2] False None (seed_rng None no_draws)
            = ([canonical_q1, canonical_q2], [])"
      by (simp add: select_questions_def seed_rng_def no_draws_def)
    show "quiz_loop False (length [canonical_q1, canonical_q2]) 1 [canonical_q1, canonical_q2] []
            ?st0 = (Aborted, [], ?w')"
      by code_simp
    show "Aborted \<noteq> Completed" by simp
  qed
  from end_of_input_aborts [where shuffle_choices = False and total_n = 2 and idx = 1
      and q = canonical_q1 and st = ?st0 and chs = "choices canonical_q1" and w = w_ex
      and ins = "[]" and ins' = "[]" and w' = ?w' and qs = "[canonical_q2]"
      and questions = "[canonical_q1, canonical_q2]" and shuffle_questions = False
      and limit = None and seed = None and rs = no_draws and all_ins = "[]" and st' = ?w']
    d r run
  show ?thesis by simp
qed

section \<open>Truncation to the limit\<close>

lemma headers_simps:
  "headers [] = []" "headers (e # es) = header_of e @ headers es"
  "headers (xs @ ys) = headers xs @ headers ys"
  by (simp_all add: headers_def)

lemma texts_simps:
  "texts [] = []" "texts (e # es) = text_of e @ texts es"
  "texts (xs @ ys) = texts xs @ texts ys"
  by (simp_all add: texts_def)

lemma choice_lines_show_nothing:
  "headers (map (\<lambda>(l, t). ChoiceLine l t) chs) = []"
  "texts (map (\<lambda>(l, t). ChoiceLine l t) chs) = []"
  by (induction chs) (auto simp: headers_simps texts_simps)

lemma dialogue_shows_nothing:
  "list_all (\<lambda>e. is_retry e \<or> e = InputClosed) ms \<Longrightarrow> headers ms = [] \<and> texts ms = []"
proof (induction ms)
  case Nil
  then show ?case by (simp add: headers_simps texts_simps)
next
  case (Cons e ms)
  then show ?case by (cases e) (auto simp: headers_simps texts_simps)
qed

lemma display_shows:
  assumes "display sc total_n idx q st = (chs, w)"
  shows "headers (out w) = headers (out st) @ [(idx, total_n)]"
    and "texts (out w) = texts (out st) @ [q_text q]"
proof -
  have o: "out w = out st @ [QuestionHeader idx total_n, QuestionText (q_text q)]
           @ map (\<lambda>(l, t). ChoiceLine l t) chs"
    by (rule display_fields(3) [OF assms])
  show "headers (out w) = headers (out st) @ [(idx, total_n)]"
    unfolding o by (simp add: headers_simps choice_lines_show_nothing)
  show "texts (out w) = texts (out st) @ [q_text q]"
    unfolding o by (simp add: texts_simps choice_lines_show_nothing)
qed

lemma read_answer_shows:
  assumes "read_answer q chs multi ins w = (a, ins', w')"
  shows "headers (out w') = headers (out w)" and "texts (out w') = texts (out w)"
proof -
  from read_answer_out [OF assms] obtain ms where
    "out w' = out w @ ms" and "list_all (\<lambda>e. is_retry e \<or> e = InputClosed) ms" by auto
  then show "headers (out w') = headers (out w)" and "texts (out w') = texts (out w)"
    using dialogue_shows_nothing [of ms] by (simp_all add: headers_simps texts_simps)
qed

lemma score_shows:
  "headers (out (score q chs ok w)) = headers (out w)"
  "texts (out (score q chs ok w)) = texts (out w)"
  by (simp_all add: score_fields headers_simps texts_simps)

lemma final_summary_shows:
  assumes "final_summary total_n st = (oc, st')"
  shows "headers (out st') = headers (out st)" and "texts (out st') = texts (out st)"
  using assms
  by (auto simp: final_summary_def Let_def headers_simps texts_simps split: if_splits sum.splits)

lemma quiz_loop_shows:
  "quiz_loop sc total_n idx qs ins st = (oc, ins', st') \<Longrightarrow>
     \<exists>k \<le> length qs.
        headers (out st') = headers (out st) @ map (\<lambda>i. (i, total_n)) [idx ..< idx + k]
      \<and> texts (out st') = texts (out st) @ map q_text (take k qs)
      \<and> (oc = Completed \<longrightarrow> k = length qs)"
proof (induction qs arbitrary: idx ins st)
  case Nil
  then show ?case by simp
next
  case (Cons q qs)
  obtain chs w where d: "display sc total_n idx q st = (chs, w)"
    by (cases "display sc total_n idx q st")
  obtain a ins1 w1 where
    r: "read_answer (infer_choose_n q) chs (is_multi (infer_choose_n q)) ins w = (a, ins1, w1)"
    by (cases "read_answer (infer_choose_n q) chs (is_multi (infer_choose_n q)) ins w")
  have h1: "headers (out w1) = headers (out st) @ [(idx, total_n)]"
    and t1: "texts (out w1) = texts (out st) @ [q_text q]"
    using display_shows [OF d] read_answer_shows [OF r] by simp_all
  show ?case
  proof (cases a)
    case (Answered ok)
    let ?s = "score (infer_choose_n q) chs ok w1"
    from Cons.prems Answered have "quiz_loop sc total_n (Suc idx) qs ins1 ?s = (oc, ins', st')"
      unfolding quiz_loop_step [OF d r] by simp
    from Cons.IH [OF this] obtain k where k: "k \<le> length qs"
      and h: "headers (out st') = headers (out ?s) @ map (\<lambda>i. (i, total_n)) [Suc idx ..< Suc idx + k]"
      and t: "texts (out st') = texts (out ?s) @ map q_text (take k qs)"
      and c: "oc = Completed \<longrightarrow> k = length qs"
      by auto
    have u: "[idx ..< idx + Suc k] = idx # [Suc idx ..< Suc idx + k]"
      by (simp add: upt_conv_Cons)
    show ?thesis
    proof (intro exI [of _ "Suc k"] conjI)
      show "Suc k \<le> length (q # qs)" using k by simp
      show "headers (out st') = headers (out st) @ map (\<lambda>i. (i, total_n)) [idx ..< idx + Suc k]"
        unfolding u using h by (simp add: score_shows h1)
      show "texts (out st') = texts (out st) @ map q_text (take (Suc k) (q # qs))"
        using t by (simp add: score_shows t1)
      show "oc = Completed \<longrightarrow> Suc k = length (q # qs)" using c by simp
    qed
  next
    case EndOfInput
    with Cons.prems have "st' = w1" and "oc = Aborted"
      unfolding quiz_loop_step [OF d r] by auto
    then show ?thesis by (intro exI [of _ 1]) (simp add: h1 t1)
  next
    case (Failed e)
    with Cons.prems have "st' = w1" and "oc = Raised e"
      unfolding quiz_loop_step [OF d r] by auto
    then show ?thesis by (intro exI [of _ 1]) (simp add: h1 t1)
  qed
qed

lemma run_quiz_shows:
  assumes sel: "select_questions questions sq limit (seed_rng seed rs) = (qs, g1)"
    and run: "run_quiz questions sq sc limit seed rs ins = (oc, st')"
  shows "\<exists>k \<le> length qs.
        headers (out st') = map (\<lambda>i. (i, length qs)) [1 ..< 1 + k]
      \<and> texts (out st') = map q_text (take k qs)
      \<and> (oc = Completed \<longrightarrow> k = length qs)"
proof -
  let ?st0 = "\<lparr>correct = 0, running_total = 0, out = [], rng = g1\<rparr>"
  obtain oc1 ins1 st1 where l: "quiz_loop sc (length qs) 1 qs ins ?st0 = (oc1, ins1, st1)"
    by (cases "quiz_loop sc (length qs) 1 qs ins ?st0")
  from quiz_loop_shows [OF l] obtain k where k: "k \<le> length qs"
    and h0: "headers (out st1) = headers (out ?st0) @ map (\<lambda>i. (i, length qs)) [1 ..< 1 + k]"
    and t0: "texts (out st1) = texts (out ?st0) @ map q_text (take k qs)"
    and c: "oc1 = Completed \<longrightarrow> k = length qs"
    by blast
  have h: "headers (out st1) = map (\<lambda>i. (i, length qs)) [1 ..< 1 + k]"
    unfolding h0 by (simp add: headers_simps)
  have t: "texts (out st1) = map q_text (take k qs)"
    unfolding t0 by (simp add: texts_simps)
  show ?thesis
  proof (cases "oc1 = Completed")
    case True
    with run_quiz_completed [OF sel, of sc ins ins1 st1] l run
    have f: "final_summary (length qs) st1 = (oc, st')" by simp
    have "headers (out st') = headers (out st1)" and "texts (out st') = texts (out st1)"
      by (rule final_summary_shows [OF f])+
    with h t have "headers (out st') = map (\<lambda>i. (i, length qs)) [1 ..< 1 + k]"
      and "texts (out st') = map q_text (take k qs)" by simp_all
    moreover from c True have "k = length qs" by simp
    ultimately show ?thesis using k by blast
  next
    case False
    from run_quiz_stopped [OF sel l False] run have "oc = oc1" and "st' = st1" by simp_all
    with h t False have "headers (out st') = map (\<lambda>i. (i, length qs)) [1 ..< 1 + k]"
      and "texts (out st') = map q_text (take k qs)" and "oc \<noteq> Completed" by simp_all
    then show ?thesis using k by blast
  qed
qed

lemma slice_to_nonneg: "0 \<le> l \<Longrightarrow> slice_to xs l = take (nat l) xs"
  by (simp add: slice_to_def)

lemma select_questions_limit:
  "fst (select_questions questions sq (Some l) g) =
     slice_to (fst (select_questions questions sq None g)) l"
  by (simp add: select_questions_def split: prod.splits)

text \<open>
  Claim C7, amended. With \<open>limit\<close> set to a non-negative integer, the questions handed
  to the loop are the first \<open>limit\<close> questions of the sequence after the optional
  shuffle: its prefix of length \<open>min limit length\<close>. However the call ends, the
  questions displayed are a prefix of these, in order and numbered from 1 (all of them
  when the session runs to its end), and every header shows the truncated length as
  the total.
\<close>

theorem limit_keeps_prefix:
  assumes "0 \<le> l"
  shows "fst (select_questions questions shuffle_questions (Some l) (seed_rng seed rs)) =
           take (nat l) (fst (select_questions questions shuffle_questions None (seed_rng seed rs)))
       \<and> length (fst (select_questions questions shuffle_questions (Some l) (seed_rng seed rs))) =
           min (nat l)
             (length (fst (select_questions questions shuffle_questions None (seed_rng seed rs))))
       \<and> (\<forall>oc st'. run_quiz questions shuffle_questions shuffle_choices (Some l) seed rs ins = (oc, st')
            \<longrightarrow> (\<exists>k \<le> length (fst (select_questions questions shuffle_questions (Some l) (seed_rng seed rs))).
                   headers (out st') =
                     map (\<lambda>i. (i, length (fst (select_questions questions shuffle_questions (Some l)
                                                 (seed_rng seed rs)))))
                       [1 ..< 1 + k]
                 \<and> texts (out st') =
                     map q_text (take k (fst (select_questions questions shuffle_questions (Some l)
                                               (seed_rng seed rs))))
                 \<and> (oc = Completed \<longrightarrow>
                      k = length (fst (select_questions questions shuffle_questions (Some l)
                                        (seed_rng seed rs))))))"
proof (intro conjI allI impI)
  let ?post = "fst (select_questions questions shuffle_questions None (seed_rng seed rs))"
  let ?eff = "fst (select_questions questions shuffle_questions (Some l) (seed_rng seed rs))"
  show e: "?eff = take (nat l) ?post"
    using assms by (simp add: select_questions_limit slice_to_nonneg)
  show "length ?eff = min (nat l) (length ?post)"
    unfolding e by (simp add: min.commute)
  fix oc st'
  assume run: "run_quiz questions shuffle_questions shuffle_choices (Some l) seed rs ins = (oc, st')"
  obtain qs g1 where
    sel: "select_questions questions shuffle_questions (Some l) (seed_rng seed rs) = (qs, g1)"
    by (cases "select_questions questions shuffle_questions (Some l) (seed_rng seed rs)")
  from run_quiz_shows [OF sel run] sel
  show "\<exists>k \<le> length ?eff.
          headers (out st') = map (\<lambda>i. (i, length ?eff)) [1 ..< 1 + k]
        \<and> texts (out st') = map q_text (take k ?eff)
        \<and> (oc = Completed \<longrightarrow> k = length ?eff)"
    by simp
qed

text \<open>
  Claim C7 as stated covers every integer \<open>limit\<close>. With \<open>limit = -1\<close> and two
  questions, the slice \<open>questions[:-1]\<close> keeps one question, not the
  \<open>min(limit, length)\<close> of the claim, and the session presents it with total 1.
\<close>

theorem negative_limit_counterexample:
  "fst (select_questions [canonical_q1, canonical_q2] False (Some (- 1)) (seed_rng None no_draws))
     = [canonical_q1]
   \<and> int (length (fst (select_questions [canonical_q1, canonical_q2] False (Some (- 1))
                       (seed_rng None no_draws))))
     \<noteq> min (- 1) (int (length [canonical_q1, canonical_q2]))
   \<and> run_quiz [canonical_q1, canonical_q2] False False (Some (- 1)) None no_draws [] =
       (Aborted,
        \<lparr>correct = 0, running_total = 1,
         out = [QuestionHeader 1 1, QuestionText ''What is S3? (Choose one.)'',
                ChoiceLine CHR ''A'' ''Storage'', ChoiceLine CHR ''B'' ''Compute'',
                Prompt, InputClosed],
         rng = []\<rparr>)"
proof -
  have sel: "select_questions [canonical_q1, canonical_q2] False (Some (- 1)) (seed_rng None no_draws)
               = ([canonical_q1], [])"
    by (simp add: select_questions_def slice_to_def seed_rng_def no_draws_def)
  have "run_quiz [canonical_q1, canonical_q2] False False (Some (- 1)) None no_draws [] =
       (Aborted,
        \<lparr>correct = 0, running_total = 1,
         out = [QuestionHeader 1 1, QuestionText ''What is S3? (Choose one.)'',
                ChoiceLine CHR ''A'' ''Storage'', ChoiceLine CHR ''B'' ''Compute'',
                Prompt, InputClosed],
         rng = []\<rparr>)"
  proof (rule run_quiz_stopped [OF sel])
    show "quiz_loop False (length [canonical_q1]) 1 [canonical_q1] []
            \<lparr>correct = 0, running_total = 0, out = [], rng = []\<rparr> =
          (Aborted, [],
           \<lparr>correct = 0, running_total = 1,
            out = [QuestionHeader 1 1, QuestionText ''What is S3? (Choose one.)'',
                ChoiceLine CHR ''A'' ''Storage'', ChoiceLine CHR ''B'' ''Compute'',
                Prompt, InputClosed],
            rng = []\<rparr>)"
      by code_simp
    show "Aborted \<noteq> Completed" by simp
  qed
  with sel show ?thesis by simp
qed

theorem limit_keeps_prefix_witness:
  "(0::int) \<le> 1
   \<and> fst (select_questions [canonical_q1, canonical_q2] False (Some 1) (seed_rng None no_draws))
       = [canonical_q1]
   \<and> length (fst (select_questions [canonical_q1, canonical_q2] False (Some 1)
                (seed_rng None no_draws))) = 1"
proof -
  have post: "fst (select_questions [canonical_q1, canonical_q2] False None (seed_rng None no_draws))
                = [canonical_q1, canonical_q2]"
    by (simp add: select_questions_def)
  have z: "(0::int) \<le> 1" by simp
  from limit_keeps_prefix [OF z, of "[canonical_q1, canonical_q2]" False None no_draws False "[]"]
  have "fst (select_questions [canonical_q1, canonical_q2] False (Some 1) (seed_rng None no_draws))
       = take (nat 1) (fst (select_questions [canonical_q1, canonical_q2] False None
                              (seed_rng None no_draws)))"
    by (rule conjunct1)
  then have "fst (select_questions [canonical_q1, canonical_q2] False (Some 1) (seed_rng None no_draws))
       = [canonical_q1]"
    by (simp add: post)
  then show ?thesis by simp
qed

section \<open>Choices of the parsed questions\<close>

lemma choices_infer_choose_n [simp]: "choices (infer_choose_n q) = choices q"
  by (simp add: infer_choose_n_def)

lemma choices_finalize [simp]: "choices (finalize q) = choices q"
  by (simp add: finalize_def Let_def)

lemma choices_set_correct [simp]: "choices (set_correct q ls) = choices q"
  by (simp add: set_correct_def)

lemma choices_new_question [simp]: "choices (new_question n t) = []"
  by (simp add: new_question_def)

lemma parse_line_choices:
  "all_choices (parse_line st line) = all_choices st
   \<or> all_choices (parse_line st line) = all_choices st @ recorded_choice line"
proof (cases st)
  case (Pair questions current_q)
  show ?thesis
  proof (cases "question_match line")
    case (Some m)
    then show ?thesis
      by (cases m; cases current_q)
        (auto simp: Pair parse_line_def all_choices_def Let_def split: option.splits)
  next
    case None
    show ?thesis
    proof (cases current_q)
      case None
      with \<open>question_match line = None\<close> show ?thesis
        by (simp add: Pair parse_line_def all_choices_def)
    next
      case (Some q)
      with \<open>question_match line = None\<close> show ?thesis
        by (auto simp: Pair parse_line_def all_choices_def recorded_choice_def add_choice_def
            split: option.splits)
    qed
  qed
qed

lemma foldl_parse_line_choices:
  "subseq (all_choices st) pre \<Longrightarrow>
     subseq (all_choices (foldl parse_line st ls)) (pre @ concat (map recorded_choice ls))"
proof (induction ls arbitrary: st pre)
  case Nil
  then show ?case by simp
next
  case (Cons line ls)
  have "subseq (all_choices (parse_line st line)) (pre @ recorded_choice line)"
  proof -
    from parse_line_choices [of st line] show ?thesis
    proof
      assume "all_choices (parse_line st line) = all_choices st"
      with Cons.prems show ?thesis by (simp add: subseq_rev_drop_many)
    next
      assume "all_choices (parse_line st line) = all_choices st @ recorded_choice line"
      with Cons.prems show ?thesis by (simp add: list_emb_append_mono)
    qed
  qed
  from Cons.IH [OF this] show ?case by simp
qed

lemma concat_choices_filter:
  "concat (map choices (filter (\<lambda>q. choices q \<noteq> []) qs)) = concat (map choices qs)"
  by (induction qs) auto

lemma parse_finish_choices: "concat (map choices (parse_finish st)) = all_choices st"
  by (cases st) (auto simp: parse_finish_def all_choices_def Let_def concat_choices_filter
      split: option.splits)

lemma parse_choices_subseq:
  "subseq (concat (map choices (parse_markdown_exam_text doc))) (choice_lines doc)"
  unfolding parse_markdown_exam_text_def parse_finish_choices choice_lines_def
  using foldl_parse_line_choices [of "([], None)" "[]" "splitlines doc"]
  by (simp add: all_choices_def)

lemma upper_char_upper: "is_upper l \<Longrightarrow> upper_char l = l"
  by (auto simp: upper_char_def is_upper_def is_lower_def Let_def)

lemma recorded_choice_upper: "list_all (\<lambda>c. is_upper (fst c)) (recorded_choice line)"
  by (auto simp: recorded_choice_def choice_match_def upper_char_upper
      split: option.splits list.splits if_splits)

lemma choice_lines_upper: "list_all (\<lambda>c. is_upper (fst c)) (choice_lines doc)"
  using recorded_choice_upper by (auto simp: choice_lines_def list_all_iff)


lemma subseq_list_all: "subseq xs ys \<Longrightarrow> list_all P ys \<Longrightarrow> list_all P xs"
  by (auto simp: list_all_iff dest: list_emb_set)

text \<open>
  Claim C8, amended. For every document, the choice letters of every emitted question
  are upper-case letters, and the choices of the emitted questions, question after
  question, are listed in document order: they form a subsequence of the choice lines of
  the document. (Uniqueness of the letters is not part of the amended claim.)
\<close>

theorem choices_upper_in_document_order:
  "list_all (\<lambda>q. list_all (\<lambda>c. is_upper (fst c)) (choices q)) (parse_markdown_exam_text doc)
   \<and> subseq (concat (map choices (parse_markdown_exam_text doc))) (choice_lines doc)"
proof
  show s: "subseq (concat (map choices (parse_markdown_exam_text doc))) (choice_lines doc)"
    by (rule parse_choices_subseq)
  have "list_all (\<lambda>c. is_upper (fst c)) (concat (map choices (parse_markdown_exam_text doc)))"
    by (rule subseq_list_all [OF s choice_lines_upper])
  then show "list_all (\<lambda>q. list_all (\<lambda>c. is_upper (fst c)) (choices q))
               (parse_markdown_exam_text doc)"
    by (auto simp: list_all_iff)
qed

text \<open>
  Claim C8 as stated includes uniqueness of the letters within a question. A question
  with two choice lines \<open>- A. ...\<close> is emitted with the letter \<open>A\<close> twice.
\<close>

theorem repeated_choice_letter_counterexample:
  "parse_markdown_exam_text repeated_letter_doc =
     [\<lparr>number = 1, q_text = ''What is S3?'',
       choices = [(CHR ''A'', ''Storage''), (CHR ''A'', ''Compute'')],
       correct_letters = [CHR ''A''], choose_n = Some 1\<rparr>]
   \<and> \<not> distinct (map fst (choices (hd (parse_markdown_exam_text repeated_letter_doc))))"
proof -
  have p: "parse_markdown_exam_text repeated_letter_doc =
     [\<lparr>number = 1, q_text = ''What is S3?'',
       choices = [(CHR ''A'', ''Storage''), (CHR ''A'', ''Compute'')],
       correct_letters = [CHR ''A''], choose_n = Some 1\<rparr>]"
    by code_simp
  show ?thesis unfolding p by simp
qed

theorem choices_upper_in_document_order_witness:
  "parse_markdown_exam_text canonical_doc = [canonical_q1, canonical_q2]
   \<and> choice_lines canonical_doc = choices canonical_q1 @ choices canonical_q2
   \<and> list_all (\<lambda>q. list_all (\<lambda>c. is_upper (fst c)) (choices q)) [canonical_q1, canonical_q2]
   \<and> subseq (concat (map choices [canonical_q1, canonical_q2]))
        (choices canonical_q1 @ choices canonical_q2)"
proof -
  have p: "parse_markdown_exam_text canonical_doc = [canonical_q1, canonical_q2]"
    by code_simp
  have c: "choice_lines canonical_doc = choices canonical_q1 @ choices canonical_q2"
    by code_simp
  from choices_upper_in_document_order [of canonical_doc] p c show ?thesis by simp
qed

section \<open>Cleaning a text twice\<close>

lemma lower_char_not_letter:
  "\<not> is_lower p \<Longrightarrow> lower_char c = p \<Longrightarrow> c = p"
  by (auto simp: lower_char_def is_upper_def is_lower_def Let_def split: if_splits)

lemma ci_prefix_first:
  "\<not> is_lower p \<Longrightarrow> c \<noteq> p \<Longrightarrow> ci_prefix (p # ps) (c # cs) = None"
  using lower_char_not_letter [of p c] by auto

lemma remove_blocks_id:
  "\<not> is_lower p \<Longrightarrow> p \<notin> set s \<Longrightarrow> remove_blocks (p # ps) stop s = s"
proof (induction s)
  case Nil
  then show ?case by simp
next
  case (Cons c cs)
  then have "ci_prefix (p # ps) (c # cs) = None" by (intro ci_prefix_first) auto
  with Cons show ?case by (simp del: ci_prefix.simps)
qed

lemma remove_entities_id: "CHR ''&'' \<notin> set s \<Longrightarrow> remove_entities s = s"
  by (induction s) auto

lemma remove_tags_id: "CHR ''<'' \<notin> set s \<Longrightarrow> remove_tags s = s"
  by (induction s) auto

lemma collapse_ws_hd:
  "s \<noteq> [] \<Longrightarrow> \<not> is_space (hd s) \<Longrightarrow> collapse_ws s \<noteq> [] \<and> \<not> is_space (hd (collapse_ws s))"
  by (cases s) auto

lemma dropWhile_hd: "dropWhile P s \<noteq> [] \<Longrightarrow> \<not> P (hd (dropWhile P s))"
  using hd_dropWhile by blast

lemma dropWhile_id_hd: "xs = [] \<or> \<not> P (hd xs) \<Longrightarrow> dropWhile P xs = xs"
  by (cases xs) auto

lemma single_spaced_Cons:
  "single_spaced (c # s) \<longleftrightarrow>
     (is_space c \<longrightarrow> c = CHR '' '' \<and> (s = [] \<or> \<not> is_space (hd s))) \<and> single_spaced s"
  by (cases s) auto

lemma single_spaced_collapse: "single_spaced (collapse_ws s)"
proof (induction s rule: collapse_ws.induct)
  case 1
  then show ?case by simp
next
  case (2 c cs)
  show ?case
  proof (cases "is_space c")
    case True
    have "collapse_ws (dropWhile is_space cs) = []
          \<or> \<not> is_space (hd (collapse_ws (dropWhile is_space cs)))"
    proof (cases "dropWhile is_space cs = []")
      case e: True
      have "collapse_ws (dropWhile is_space cs) = []" unfolding e by simp
      then show ?thesis by blast
    next
      case ne: False
      then have "\<not> is_space (hd (dropWhile is_space cs))" by (rule dropWhile_hd)
      with ne show ?thesis using collapse_ws_hd by blast
    qed
    with True 2 show ?thesis by (simp add: single_spaced_Cons del: single_spaced.simps)
  next
    case False
    with 2 show ?thesis by (simp add: single_spaced_Cons del: single_spaced.simps)
  qed
qed

lemma collapse_single_spaced: "single_spaced s \<Longrightarrow> collapse_ws s = s"
proof (induction s rule: single_spaced.induct)
  case 1
  then show ?case by simp
next
  case (2 c)
  then show ?case by simp
next
  case (3 c d s)
  then show ?case by auto
qed

lemma single_spaced_append:
  "single_spaced (xs @ ys) \<Longrightarrow> single_spaced xs \<and> single_spaced ys"
proof (induction xs rule: single_spaced.induct)
  case 1
  then show ?case by simp
next
  case (2 c)
  then show ?case by (cases ys) auto
next
  case (3 c d s)
  then show ?case by auto
qed

lemma single_spaced_dropWhile: "single_spaced s \<Longrightarrow> single_spaced (dropWhile P s)"
  using single_spaced_append [of "takeWhile P s" "dropWhile P s"] by simp

lemma strip_decomp: "\<exists>a b. s = a @ strip s @ b"
proof -
  let ?u = "dropWhile is_space s"
  have "s = takeWhile is_space s @ ?u" by simp
  moreover have "rev ?u = takeWhile is_space (rev ?u) @ dropWhile is_space (rev ?u)" by simp
  then have "?u = rev (dropWhile is_space (rev ?u)) @ rev (takeWhile is_space (rev ?u))"
    by (metis rev_append rev_rev_ident)
  ultimately have "s = takeWhile is_space s @ strip s @ rev (takeWhile is_space (rev ?u))"
    by (simp add: strip_def)
  then show ?thesis by blast
qed

lemma single_spaced_strip: "single_spaced s \<Longrightarrow> single_spaced (strip s)"
proof -
  assume a: "single_spaced s"
  obtain x y where "s = x @ strip s @ y" using strip_decomp by blast
  with a have "single_spaced (x @ (strip s @ y))" by simp
  then have "single_spaced (strip s @ y)" using single_spaced_append by blast
  then show ?thesis using single_spaced_append by blast
qed

lemma strip_ends:
  "strip s = [] \<or> (\<not> is_space (hd (strip s)) \<and> \<not> is_space (last (strip s)))"
proof (cases "strip s = []")
  case True
  then show ?thesis by simp
next
  case False
  let ?u = "dropWhile is_space s"
  let ?v = "dropWhile is_space (rev ?u)"
  from False have v: "?v \<noteq> []" by (simp add: strip_def)
  then have "\<not> is_space (hd ?v)" by (rule dropWhile_hd)
  then have l: "\<not> is_space (last (strip s))" using v by (simp add: strip_def last_rev)
  have u: "?u \<noteq> []"
  proof
    assume e: "?u = []"
    have "?v = []" unfolding e by simp
    with v show False by contradiction
  qed
  then have hu: "\<not> is_space (hd ?u)" by (rule dropWhile_hd)
  have "rev ?u = takeWhile is_space (rev ?u) @ ?v" by simp
  then have "?u = rev ?v @ rev (takeWhile is_space (rev ?u))"
    by (metis rev_append rev_rev_ident)
  then have "hd ?u = hd (rev ?v)" using v by (metis hd_append2 rev_is_Nil_conv)
  with hu have "\<not> is_space (hd (strip s))" by (simp add: strip_def)
  with l show ?thesis by simp
qed

lemma strip_id: "s = [] \<or> (\<not> is_space (hd s) \<and> \<not> is_space (last s)) \<Longrightarrow> strip s = s"
proof (cases s)
  case Nil
  then show ?thesis by (simp add: strip_def)
next
  case (Cons c cs)
  assume "s = [] \<or> (\<not> is_space (hd s) \<and> \<not> is_space (last s))"
  with Cons have h: "\<not> is_space (hd s)" and l: "\<not> is_space (last s)" by auto
  from h have "dropWhile is_space s = s" by (intro dropWhile_id_hd) simp
  moreover from l have "dropWhile is_space (rev s) = rev s"
    by (intro dropWhile_id_hd) (simp add: hd_rev)
  ultimately show ?thesis by (simp add: strip_def)
qed

lemma normalise_idem: "strip (collapse_ws (strip (collapse_ws s))) = strip (collapse_ws s)"
proof -
  let ?b = "strip (collapse_ws s)"
  have "single_spaced ?b" by (intro single_spaced_strip single_spaced_collapse)
  then have "collapse_ws ?b = ?b" by (rule collapse_single_spaced)
  moreover have "strip ?b = ?b" by (rule strip_id) (rule strip_ends)
  ultimately show ?thesis by simp
qed

lemma clean_question_text_normal:
  "clean_question_text x = [] \<or> (\<exists>t. clean_question_text x = strip (collapse_ws t))"
  by (auto simp: clean_question_text_def Let_def)

text \<open>
  Claim C2, amended. Cleaning is idempotent on every input whose cleaned text contains
  neither \<open>&\<close> nor \<open><\<close>: on such a text the four removals find nothing, and collapsing
  and trimming whitespace twice is the same as once.
\<close>

theorem sanitize_idempotent_when_clean:
  assumes "CHR ''&'' \<notin> set (clean_question_text x)" and "CHR ''<'' \<notin> set (clean_question_text x)"
  shows "clean_question_text (clean_question_text x) = clean_question_text x"
proof (cases "clean_question_text x = []")
  case True
  then show ?thesis by (simp add: clean_question_text_def)
next
  case False
  let ?y = "clean_question_text x"
  have l: "\<not> is_lower CHR ''&''" "\<not> is_lower CHR ''<''" by (simp_all add: is_lower_def)
  have 1: "remove_blocks ''&lt;details'' ''&lt;/details&gt;'' ?y = ?y"
    using remove_blocks_id [OF l(1) assms(1)] by simp
  have 2: "remove_entities ?y = ?y" by (rule remove_entities_id [OF assms(1)])
  have 3: "remove_blocks ''<details'' ''</details>'' ?y = ?y"
    using remove_blocks_id [OF l(2) assms(2)] by simp
  have 4: "remove_tags ?y = ?y" by (rule remove_tags_id [OF assms(2)])
  from False clean_question_text_normal [of x] obtain t where t: "?y = strip (collapse_ws t)"
    by auto
  have "clean_question_text ?y = strip (collapse_ws ?y)"
    using False by (simp add: clean_question_text_def [of ?y] 1 2 3 4 Let_def)
  also have "\<dots> = ?y" unfolding t by (rule normalise_idem)
  finally show ?thesis .
qed

text \<open>
  Claim C2 as stated holds for all inputs. On \<open>&lt;&lt;x&gt;y&gt;\<close> the first pass removes
  the inner fragment \<open>&lt;x&gt;\<close> and leaves \<open>&lt;y&gt;\<close>, which a second pass removes.
\<close>

theorem sanitize_not_idempotent:
  "clean_question_text ''&lt;&lt;x&gt;y&gt;'' = ''&lt;y&gt;''
   \<and> clean_question_text (clean_question_text ''&lt;&lt;x&gt;y&gt;'') = []
   \<and> clean_question_text (clean_question_text ''&lt;&lt;x&gt;y&gt;'')
       \<noteq> clean_question_text ''&lt;&lt;x&gt;y&gt;''"
  by code_simp

theorem sanitize_idempotent_when_clean_witness:
  "clean_question_text ''  What   is <b>S3</b>? &lt;details&gt;x&lt;/details&gt; '' = ''What is S3?''
   \<and> CHR ''&'' \<notin> set ''What is S3?'' \<and> CHR ''<'' \<notin> set ''What is S3?''
   \<and> clean_question_text ''What is S3?'' = ''What is S3?''"
proof -
  have c: "clean_question_text ''  What   is <b>S3</b>? &lt;details&gt;x&lt;/details&gt; ''
             = ''What is S3?''"
    by code_simp
  have a: "CHR ''&'' \<notin> set ''What is S3?''" and b: "CHR ''<'' \<notin> set ''What is S3?''"
    by simp_all
  from sanitize_idempotent_when_clean
    [of "''  What   is <b>S3</b>? &lt;details&gt;x&lt;/details&gt; ''"] a b
  have "clean_question_text ''What is S3?'' = ''What is S3?''"
    unfolding c by simp
  with c a b show ?thesis by simp
qed

section \<open>The pass threshold\<close>

lemma round_half_even_le: "round_half_even x \<le> \<lfloor>x\<rfloor> + 1"
  by (simp add: round_half_even_def Let_def)

lemma round_half_even_ge: "\<lfloor>x\<rfloor> \<le> round_half_even x"
  by (simp add: round_half_even_def Let_def)

lemma round_half_even_ge_even:
  assumes "even D"
  shows "D \<le> round_half_even x \<longleftrightarrow> of_int D - 1 / 2 \<le> x"
proof -
  define f where "f = \<lfloor>x\<rfloor>"
  have f1: "of_int f \<le> x" and f2: "x < of_int f + 1"
    unfolding f_def by linarith+
  show ?thesis
  proof (cases "D \<le> f")
    case True
    then have "(of_int D :: rat) \<le> of_int f" by simp
    with f1 have "of_int D - 1 / 2 \<le> x" by linarith
    moreover from True have "D \<le> round_half_even x"
      using round_half_even_ge [of x] by (simp add: f_def)
    ultimately show ?thesis by simp
  next
    case False
    show ?thesis
    proof (cases "f = D - 1")
      case True
      then have o: "odd f" using assms by simp
      have fd: "(of_int f :: rat) = of_int D - 1" using True by simp
      have "round_half_even x = (if x - of_int f < 1 / 2 then f else f + 1)"
        using o by (auto simp: round_half_even_def Let_def f_def)
      then show ?thesis using True fd by auto
    next
      case False
      with \<open>\<not> D \<le> f\<close> have "f + 1 < D" by simp
      then have "round_half_even x < D"
        using round_half_even_le [of x] by (simp add: f_def)
      moreover from \<open>f + 1 < D\<close> have "f + 2 \<le> D" by simp
      then have "(of_int (f + 2) :: rat) \<le> of_int D" by (simp only: of_int_le_iff)
      then have "(of_int f :: rat) + 2 \<le> of_int D" by simp
      with f2 have "x < of_int D - 1 / 2" by linarith
      ultimately show ?thesis by simp
    qed
  qed
qed


lemma scale_up_skip:
  "0 < c \<Longrightarrow> c * 2 ^ m < t * 2 ^ 52 \<Longrightarrow> j \<le> m \<Longrightarrow> scale_up c t j = scale_up c t (Suc m)"
proof (induction "m - j" arbitrary: j)
  case 0
  then have "j = m" by simp
  with 0 show ?case by (simp add: scale_up.simps [of c t m])
next
  case (Suc d)
  then have jm: "j < m" by simp
  have "(2::int) ^ j \<le> 2 ^ m" using jm by (simp add: power_increasing)
  with Suc.prems(1) have "c * 2 ^ j \<le> c * 2 ^ m" by (simp add: mult_left_mono)
  with Suc.prems(2) have g: "c * 2 ^ j < t * 2 ^ 52" by simp
  have "scale_up c t j = scale_up c t (Suc j)"
    using Suc.prems(1) g by (simp add: scale_up.simps [of c t j])
  also have "\<dots> = scale_up c t (Suc m)"
    using Suc.hyps(2) jm by (intro Suc.hyps(1) Suc.prems) simp_all
  finally show ?case .
qed

lemma scale_up_stop: "t * 2 ^ 52 \<le> c * 2 ^ k \<Longrightarrow> scale_up c t k = k"
  by (simp add: scale_up.simps [of c t k])

lemma scale_up_bounds:
  "0 < c \<Longrightarrow> c * 2 ^ j < t * 2 ^ 52 \<Longrightarrow>
     j < scale_up c t j \<and> c * 2 ^ (scale_up c t j - 1) < t * 2 ^ 52
       \<and> t * 2 ^ 52 \<le> c * 2 ^ scale_up c t j"
proof (induction c t j rule: scale_up.induct)
  case (1 c t k)
  show ?case
  proof (cases "c * 2 ^ Suc k < t * 2 ^ 52")
    case True
    from "1.IH" "1.prems" True
    have "Suc k < scale_up c t (Suc k) \<and> c * 2 ^ (scale_up c t (Suc k) - 1) < t * 2 ^ 52
            \<and> t * 2 ^ 52 \<le> c * 2 ^ scale_up c t (Suc k)"
      by simp
    moreover have "scale_up c t k = scale_up c t (Suc k)"
      using "1.prems" by (simp add: scale_up.simps [of c t k])
    ultimately show ?thesis by simp
  next
    case False
    then have s: "scale_up c t (Suc k) = Suc k" by (simp add: scale_up_stop)
    have "scale_up c t k = scale_up c t (Suc k)"
      using "1.prems" by (simp add: scale_up.simps [of c t k])
    with s have "scale_up c t k = Suc k" by simp
    with "1.prems" False show ?thesis by simp
  qed
qed

lemma nearest_double_small:
  assumes "0 < c" and "c \<le> t"
  shows "nearest_double c t =
           of_int (round_half_even (of_int (c * 2 ^ scale_up c t 0) / of_int t))
             / 2 ^ scale_up c t 0"
proof -
  from assms have t: "0 < t" by simp
  then have "t * 1 < t * 2 ^ 53" by (intro mult_strict_left_mono) simp_all
  with assms have "\<not> t * 2 ^ 53 \<le> c" by simp
  with assms show ?thesis by (simp add: nearest_double_def Let_def)
qed


lemma round_half_even_of_int: "round_half_even (of_int n) = n"
  by (simp add: round_half_even_def Let_def)

lemma nearest_double_one:
  assumes "0 < c"
  shows "nearest_double c c = 1"
proof -
  have "c * 2 ^ 51 < c * 2 ^ 52" using assms by simp
  then have "scale_up c c 0 = scale_up c c (Suc 51)"
    by (intro scale_up_skip assms) simp_all
  then have k: "scale_up c c 0 = 52" by (simp add: scale_up_stop)
  have "(of_int (c * 2 ^ 52) :: rat) / of_int c = of_int (2 ^ 52)"
    using assms by simp
  then have "round_half_even (of_int (c * 2 ^ 52) / of_int c) = 2 ^ 52"
    by (simp only: round_half_even_of_int)
  then show ?thesis
    using nearest_double_small [OF assms order_refl] by (simp add: k)
qed

lemma nearest_double_upper_half:
  assumes "c < t" and "t \<le> 2 * c"
  shows "threshold \<le> nearest_double c t \<longleftrightarrow> 12610078956637387 * t \<le> c * 2 ^ 54"
proof -
  from assms have c: "0 < c" and t: "0 < t" by simp_all
  have "c * 2 ^ 52 < t * 2 ^ 52" using assms(1) by simp
  then have "scale_up c t 0 = scale_up c t (Suc 52)"
    by (intro scale_up_skip c) simp_all
  moreover have "t * 2 ^ 52 \<le> c * 2 ^ 53" using assms(2) by simp
  ultimately have k: "scale_up c t 0 = 53" by (simp add: scale_up_stop)
  define x :: rat where "x = of_int (c * 2 ^ 53) / of_int t"
  have n: "nearest_double c t = of_int (round_half_even x) / 2 ^ 53"
    using nearest_double_small [of c t] c assms(1) by (simp add: k x_def)
  have "threshold \<le> nearest_double c t \<longleftrightarrow>
          (of_int 6305039478318694 :: rat) \<le> of_int (round_half_even x)"
    unfolding n threshold_def by (simp add: divide_le_cancel)
  also have "\<dots> \<longleftrightarrow> 6305039478318694 \<le> round_half_even x"
    by (simp only: of_int_le_iff)
  also have "\<dots> \<longleftrightarrow> of_int 6305039478318694 - 1 / 2 \<le> x"
    by (rule round_half_even_ge_even) simp
  also have "\<dots> \<longleftrightarrow> (of_int (12610078956637387 * t) :: rat) \<le> of_int (c * 2 ^ 54)"
    using t by (simp add: x_def field_simps)
  also have "\<dots> \<longleftrightarrow> 12610078956637387 * t \<le> c * 2 ^ 54"
    by (simp only: of_int_le_iff)
  finally show ?thesis .
qed

lemma nearest_double_lower_half:
  assumes "0 < c" and "2 * c < t"
  shows "nearest_double c t \<le> 1 / 2"
proof -
  from assms have t: "0 < t" and ct: "c \<le> t" by simp_all
  have "c * 2 ^ 52 < t * 2 ^ 52" using assms by simp
  then have s: "scale_up c t 0 = scale_up c t (Suc 52)"
    by (intro scale_up_skip assms) simp_all
  define k where "k = scale_up c t 53"
  have "c * 2 ^ 53 < t * 2 ^ 52" using assms(2) by simp
  from scale_up_bounds [OF assms(1) this]
  have k53: "53 < k" and kb: "c * 2 ^ (k - 1) < t * 2 ^ 52" by (simp_all add: k_def)
  define x :: rat where "x = of_int (c * 2 ^ k) / of_int t"
  have n: "nearest_double c t = of_int (round_half_even x) / 2 ^ k"
    using nearest_double_small [OF assms(1) ct] s by (simp add: k_def x_def)
  define y where "y = c * 2 ^ (k - 1)"
  have "c * 2 ^ k = 2 * y"
    using k53 by (cases k) (simp_all add: y_def)
  moreover from kb have "2 * y < t * 2 ^ 53" by (simp add: y_def)
  ultimately have "c * 2 ^ k < t * 2 ^ 53" by (simp only:)
  then have "(of_int (c * 2 ^ k) :: rat) < of_int (t * 2 ^ 53)" by (simp only: of_int_less_iff)
  then have "x < 2 ^ 53" using t by (simp add: x_def field_simps)
  then have "\<lfloor>x\<rfloor> < 2 ^ 53" by (simp add: floor_less_iff)
  then have "round_half_even x \<le> 2 ^ 53" using round_half_even_le [of x] by linarith
  then have "(of_int (round_half_even x) :: rat) \<le> of_int (2 ^ 53)" by (simp only: of_int_le_iff)
  then have "(of_int (round_half_even x) :: rat) / 2 ^ k \<le> 2 ^ 53 / 2 ^ k"
    by (simp add: divide_right_mono)
  also have "(2 :: rat) ^ 53 / 2 ^ k \<le> 2 ^ 53 / 2 ^ 54"
  proof (intro divide_left_mono)
    from k53 have "54 \<le> k" by simp
    then show "(2 :: rat) ^ 54 \<le> 2 ^ k" by (intro power_increasing) simp_all
  qed simp_all
  finally show ?thesis by (simp add: n)
qed

lemma pass_iff_scaled:
  assumes "0 \<le> c" and "c \<le> t" and "0 < t"
  shows "threshold \<le> nearest_double c t \<longleftrightarrow> 12610078956637387 * t \<le> c * 2 ^ 54"
proof -
  consider "c = 0" | "c = t" | "c < t" "t \<le> 2 * c" | "0 < c" "2 * c < t"
    using assms by linarith
  then show ?thesis
  proof cases
    case 1
    with assms(3) show ?thesis by (simp add: nearest_double_def threshold_def)
  next
    case 2
    with assms(3) show ?thesis by (simp add: nearest_double_one threshold_def)
  next
    case 3
    then show ?thesis by (rule nearest_double_upper_half)
  next
    case 4
    from nearest_double_lower_half [OF 4] have "\<not> threshold \<le> nearest_double c t"
      by (simp add: threshold_def)
    moreover from 4 have "\<not> 12610078956637387 * t \<le> c * 2 ^ 54" by simp
    ultimately show ?thesis by simp
  qed
qed

lemma pass_iff_ratio:
  assumes "0 \<le> c" and "c \<le> t" and "0 < t" and "t < 10 ^ 15"
  shows "threshold \<le> nearest_double c t \<longleftrightarrow> 7 * t \<le> 10 * c"
proof -
  have "12610078956637387 * t \<le> c * 2 ^ 54 \<longleftrightarrow> 7 * t \<le> 10 * c"
    using assms by simp linarith
  with pass_iff_scaled [OF assms(1-3)] show ?thesis by simp
qed


lemma final_summary_nonempty:
  assumes "0 < total_n"
  shows "final_summary total_n st =
           (Completed,
            emit [FinalScore (correct st) total_n,
                  if threshold \<le> nearest_double (int (correct st)) (int total_n)
                  then Passed (nearest_double (int (correct st)) (int total_n)) else NotPassed] st)"
  using assms by (simp add: final_summary_def py_truediv_def Let_def emit_emit)

lemma quiz_loop_correct_le:
  "quiz_loop sc total_n idx qs ins st = (oc, ins', st') \<Longrightarrow> correct st' \<le> correct st + length qs"
proof (induction qs arbitrary: idx ins st)
  case Nil
  then show ?case by simp
next
  case (Cons q qs)
  obtain chs w where d: "display sc total_n idx q st = (chs, w)"
    by (cases "display sc total_n idx q st")
  obtain a ins1 w1 where
    r: "read_answer (infer_choose_n q) chs (is_multi (infer_choose_n q)) ins w = (a, ins1, w1)"
    by (cases "read_answer (infer_choose_n q) chs (is_multi (infer_choose_n q)) ins w")
  have c1: "correct w1 = correct st"
    using display_fields(1) [OF d] read_answer_fields [OF r] by simp
  show ?case
  proof (cases a)
    case (Answered ok)
    let ?s = "score (infer_choose_n q) chs ok w1"
    from Cons.prems Answered have "quiz_loop sc total_n (Suc idx) qs ins1 ?s = (oc, ins', st')"
      unfolding quiz_loop_step [OF d r] by simp
    from Cons.IH [OF this] have "correct st' \<le> correct ?s + length qs" .
    moreover have "correct ?s \<le> Suc (correct st)" by (simp add: score_fields c1)
    ultimately show ?thesis by simp
  next
    case EndOfInput
    with Cons.prems have "st' = w1" unfolding quiz_loop_step [OF d r] by simp
    then show ?thesis by (simp add: c1)
  next
    case (Failed e)
    with Cons.prems have "st' = w1" unfolding quiz_loop_step [OF d r] by simp
    then show ?thesis by (simp add: c1)
  qed
qed

lemma no_summary_no_pass: "list_all (\<lambda>e. \<not> is_summary e) es \<Longrightarrow> \<not> list_ex is_pass es"
proof (induction es)
  case Nil
  then show ?case by simp
next
  case (Cons e es)
  then show ?case by (cases e) auto
qed

lemma run_quiz_completed_summary:
  assumes run: "run_quiz questions sq sc limit seed rs ins = (Completed, st')"
    and sel: "select_questions questions sq limit (seed_rng seed rs) = (qs, g1)"
  shows "\<exists>st1. 0 < length qs \<and> correct st1 \<le> length qs
           \<and> list_all (\<lambda>e. \<not> is_summary e) (out st1)
           \<and> st' = emit [FinalScore (correct st1) (length qs),
                  if threshold \<le> nearest_double (int (correct st1)) (int (length qs))
                  then Passed (nearest_double (int (correct st1)) (int (length qs)))
                  else NotPassed] st1"
proof -
  let ?st0 = "\<lparr>correct = 0, running_total = 0, out = [], rng = g1\<rparr>"
  obtain oc1 ins1 st1 where l: "quiz_loop sc (length qs) 1 qs ins ?st0 = (oc1, ins1, st1)"
    by (cases "quiz_loop sc (length qs) 1 qs ins ?st0")
  have c: "oc1 = Completed"
  proof (rule ccontr)
    assume n: "oc1 \<noteq> Completed"
    from run_quiz_stopped [OF sel l n] run show False using n by simp
  qed
  with run_quiz_completed [OF sel, of sc ins ins1 st1] l run
  have f: "final_summary (length qs) st1 = (Completed, st')" by simp
  have pos: "0 < length qs"
  proof (rule ccontr)
    assume "\<not> 0 < length qs"
    then have "length qs = 0" by simp
    with f show False by (simp add: final_summary_0)
  qed
  from quiz_loop_correct_le [OF l] have le: "correct st1 \<le> length qs" by simp
  from quiz_loop_no_summary [OF l] have ns: "list_all (\<lambda>e. \<not> is_summary e) (out st1)" by simp
  from f final_summary_nonempty [OF pos, of st1] have
    "st' = emit [FinalScore (correct st1) (length qs),
                  if threshold \<le> nearest_double (int (correct st1)) (int (length qs))
                  then Passed (nearest_double (int (correct st1)) (int (length qs)))
                  else NotPassed] st1"
    by simp
  with pos le ns show ?thesis by blast
qed

text \<open>
  Claim C6. For every session that runs to its end, over \<open>N\<close> questions (\<open>N\<close> is then
  positive) with \<open>C\<close> correct: the pass message is printed exactly when the ratio
  \<open>correct/total\<close>, as the program computes it, is at least \<open>0.7\<close>, and the other
  message is printed otherwise. The program's ratio is the double nearest to \<open>C/N\<close> and
  its \<open>0.7\<close> the double nearest to \<open>7/10\<close>; for every \<open>N\<close> below \<open>10^15\<close> the test
  agrees with the exact comparison \<open>C/N \<ge> 7/10\<close>. In particular 7 correct out of 10
  gives the pass message (the ratio is then the double \<open>0.7\<close> itself), and 6 out of 10
  gives the other one.
\<close>

theorem pass_threshold:
  "(run_quiz questions shuffle_questions shuffle_choices limit seed rs ins = (Completed, st')
      \<and> N = length (fst (select_questions questions shuffle_questions limit (seed_rng seed rs)))
      \<and> C = correct st'
    \<longrightarrow> 0 < N \<and> C \<le> N
        \<and> (list_ex is_pass (out st') \<longleftrightarrow> threshold \<le> nearest_double (int C) (int N))
        \<and> (NotPassed \<in> set (out st') \<longleftrightarrow> \<not> list_ex is_pass (out st'))
        \<and> (N < 10 ^ 15 \<longrightarrow> (list_ex is_pass (out st') \<longleftrightarrow> 7 * N \<le> 10 * C)))
   \<and> final_summary 10 (st\<lparr>correct := 7\<rparr>) =
        (Completed, emit [FinalScore 7 10, Passed threshold] (st\<lparr>correct := 7\<rparr>))
   \<and> final_summary 10 (st\<lparr>correct := 6\<rparr>) =
        (Completed, emit [FinalScore 6 10, NotPassed] (st\<lparr>correct := 6\<rparr>))"
proof (intro conjI impI)
  assume a: "run_quiz questions shuffle_questions shuffle_choices limit seed rs ins = (Completed, st')
      \<and> N = length (fst (select_questions questions shuffle_questions limit (seed_rng seed rs)))
      \<and> C = correct st'"
  obtain qs g1 where
    sel: "select_questions questions shuffle_questions limit (seed_rng seed rs) = (qs, g1)"
    by (cases "select_questions questions shuffle_questions limit (seed_rng seed rs)")
  with a have N: "N = length qs" by simp
  from a have run: "run_quiz questions shuffle_questions shuffle_choices limit seed rs ins
                      = (Completed, st')" by simp
  from run_quiz_completed_summary [OF run sel] obtain st1 where
    pos: "0 < N" and le: "correct st1 \<le> N" and ns: "list_all (\<lambda>e. \<not> is_summary e) (out st1)"
    and st': "st' = emit [FinalScore (correct st1) N,
                  if threshold \<le> nearest_double (int (correct st1)) (int N)
                  then Passed (nearest_double (int (correct st1)) (int N))
                  else NotPassed] st1"
    unfolding N by blast
  have C: "C = correct st1" using a by (simp add: st')
  have np: "\<not> list_ex is_pass (out st1)" by (rule no_summary_no_pass [OF ns])
  have nn: "NotPassed \<notin> set (out st1)" using ns by (auto simp: list_all_iff)
  show "0 < N" by (rule pos)
  show "C \<le> N" using le by (simp add: C)
  show p: "list_ex is_pass (out st') \<longleftrightarrow> threshold \<le> nearest_double (int C) (int N)"
    using np by (simp add: st' C)
  show "NotPassed \<in> set (out st') \<longleftrightarrow> \<not> list_ex is_pass (out st')"
    using nn np by (simp add: st' C)
  assume b: "N < 10 ^ 15"
  have "threshold \<le> nearest_double (int C) (int N) \<longleftrightarrow> 7 * int N \<le> 10 * int C"
    using pos le b by (intro pass_iff_ratio) (simp_all add: C)
  also have "\<dots> \<longleftrightarrow> 7 * N \<le> 10 * C" by linarith
  finally show "list_ex is_pass (out st') \<longleftrightarrow> 7 * N \<le> 10 * C" using p by simp
next
  have "nearest_double 7 10 = threshold" by code_simp
  then show "final_summary 10 (st\<lparr>correct := 7\<rparr>) =
        (Completed, emit [FinalScore 7 10, Passed threshold] (st\<lparr>correct := 7\<rparr>))"
    by (simp add: final_summary_nonempty)
next
  have "\<not> threshold \<le> nearest_double 6 10" by code_simp
  then show "final_summary 10 (st\<lparr>correct := 6\<rparr>) =
        (Completed, emit [FinalScore 6 10, NotPassed] (st\<lparr>correct := 6\<rparr>))"
    by (simp add: final_summary_nonempty)
qed

lemma run_quiz_completes:
  assumes sel: "select_questions questions sq limit (seed_rng seed rs) = (qs, g1)"
    and pos: "0 < length qs"
    and l: "fst (quiz_loop sc (length qs) 1 qs ins
                  \<lparr>correct = 0, running_total = 0, out = [], rng = g1\<rparr>) = Completed"
  shows "fst (run_quiz questions sq sc limit seed rs ins) = Completed"
    and "correct (snd (run_quiz questions sq sc limit seed rs ins)) =
           correct (snd (snd (quiz_loop sc (length qs) 1 qs ins
                  \<lparr>correct = 0, running_total = 0, out = [], rng = g1\<rparr>)))"
proof -
  let ?st0 = "\<lparr>correct = 0, running_total = 0, out = [], rng = g1\<rparr>"
  obtain oc1 ins1 st1 where q: "quiz_loop sc (length qs) 1 qs ins ?st0 = (oc1, ins1, st1)"
    by (cases "quiz_loop sc (length qs) 1 qs ins ?st0")
  with l have q': "quiz_loop sc (length qs) 1 qs ins ?st0 = (Completed, ins1, st1)" by simp
  have r: "run_quiz questions sq sc limit seed rs ins = final_summary (length qs) st1"
    by (rule run_quiz_completed [OF sel q'])
  show "fst (run_quiz questions sq sc limit seed rs ins) = Completed"
    unfolding r by (simp add: final_summary_nonempty [OF pos])
  show "correct (snd (run_quiz questions sq sc limit seed rs ins)) =
           correct (snd (snd (quiz_loop sc (length qs) 1 qs ins ?st0)))"
    unfolding r q by (simp add: final_summary_nonempty [OF pos])
qed

theorem pass_threshold_witness:
  "fst (run_quiz [canonical_q1] False False None None no_draws [''A''])
     = Completed
   \<and> correct (snd (run_quiz [canonical_q1] False False None None no_draws
                     [''A''])) = 1
   \<and> list_ex is_pass (out (snd (run_quiz [canonical_q1] False False None None
                                  no_draws [''A''])))
   \<and> fst (run_quiz [canonical_q1] False False None None no_draws [''B''])
     = Completed
   \<and> correct (snd (run_quiz [canonical_q1] False False None None no_draws
                     [''B''])) = 0
   \<and> \<not> list_ex is_pass (out (snd (run_quiz [canonical_q1] False False None None
                                    no_draws [''B''])))
   \<and> NotPassed \<in> set (out (snd (run_quiz [canonical_q1] False False None None
                                    no_draws [''B''])))"
proof -
  let ?st0 = "\<lparr>correct = 0, running_total = 0, out = [], rng = []\<rparr>"
  let ?qs = "[canonical_q1]"
  let ?i2 = "[''A'']"
  let ?i1 = "[''B'']"
  let ?r2 = "run_quiz ?qs False False None None no_draws ?i2"
  let ?r1 = "run_quiz ?qs False False None None no_draws ?i1"
  have sel: "select_questions ?qs False None (seed_rng None no_draws) = (?qs, [])"
    by (simp add: select_questions_def seed_rng_def no_draws_def)
  have pos: "0 < length ?qs" by simp
  have N: "(1::nat) = length (fst (select_questions ?qs False None (seed_rng None no_draws)))"
    by (simp add: sel)
  have f2: "fst (quiz_loop False (length ?qs) 1 ?qs ?i2 ?st0) = Completed"
    by code_simp
  have c2: "correct (snd (snd (quiz_loop False (length ?qs) 1 ?qs ?i2 ?st0))) = 1"
    by code_simp
  have f1: "fst (quiz_loop False (length ?qs) 1 ?qs ?i1 ?st0) = Completed"
    by code_simp
  have c1: "correct (snd (snd (quiz_loop False (length ?qs) 1 ?qs ?i1 ?st0))) = 0"
    by code_simp
  have a2: "fst ?r2 = Completed" and b2: "correct (snd ?r2) = 1"
    using run_quiz_completes [OF sel pos f2] c2 by simp_all
  have a1: "fst ?r1 = Completed" and b1: "correct (snd ?r1) = 0"
    using run_quiz_completes [OF sel pos f1] c1 by simp_all
  have r2: "?r2 = (Completed, snd ?r2)" using a2 by (simp add: prod_eq_iff)
  have r1: "?r1 = (Completed, snd ?r1)" using a1 by (simp add: prod_eq_iff)
  have h2: "?r2 = (Completed, snd ?r2) \<and> 1 = length (fst (select_questions ?qs False None
              (seed_rng None no_draws))) \<and> 1 = correct (snd ?r2)"
    using r2 N b2 by simp
  have h1: "?r1 = (Completed, snd ?r1) \<and> 1 = length (fst (select_questions ?qs False None
              (seed_rng None no_draws))) \<and> 0 = correct (snd ?r1)"
    using r1 N b1 by simp
  note t2 = pass_threshold [where questions = ?qs and shuffle_questions = False
      and shuffle_choices = False and limit = None and seed = None and rs = no_draws
      and ins = ?i2 and st' = "snd ?r2" and N = 1 and C = 1, THEN conjunct1, THEN mp, OF h2]
  note t1 = pass_threshold [where questions = ?qs and shuffle_questions = False
      and shuffle_choices = False and limit = None and seed = None and rs = no_draws
      and ins = ?i1 and st' = "snd ?r1" and N = 1 and C = 0, THEN conjunct1, THEN mp, OF h1]
  have p2: "list_ex is_pass (out (snd ?r2))"
    using t2 [THEN conjunct2, THEN conjunct2, THEN conjunct2, THEN conjunct2] by simp
  have p1: "\<not> list_ex is_pass (out (snd ?r1))"
    using t1 [THEN conjunct2, THEN conjunct2, THEN conjunct2, THEN conjunct2] by simp
  have n1: "NotPassed \<in> set (out (snd ?r1))"
    using t1 [THEN conjunct2, THEN conjunct2, THEN conjunct2, THEN conjunct1] p1 by simp
  from a2 b2 p2 a1 b1 p1 n1 show ?thesis by (intro conjI)
qed

end
